theory Spec2Isabelle
  imports Main "HOL-Library.Finite_Map"
begin

section \<open>Strings\<close>

text \<open>
  The program is Python; its strings are sequences of code points.  Here a string is a
  \<^typ>\<open>string\<close>, read as a sequence of code points below 256.  The string methods the
  program uses are modelled on that range.

  \<open>str.strip()\<close> without an argument removes leading and trailing characters for
  which \<open>str.isspace\<close> holds.  Below 256 these are the code points 9 to 13, 28 to 32,
  133 and 160.
\<close>

definition is_space :: "char \<Rightarrow> bool" where
  "is_space c = (of_char c \<in> set [9, 10, 11, 12, 13, 28, 29, 30, 31, 32, 133, 160 :: nat])"

definition lstrip :: "string \<Rightarrow> string" where
  "lstrip s = dropWhile is_space s"

definition rstrip :: "string \<Rightarrow> string" where
  "rstrip s = rev (dropWhile is_space (rev s))"

definition strip :: "string \<Rightarrow> string" where
  "strip s = rstrip (lstrip s)"

text \<open>
  \<open>s.split(c)\<close> for a separator \<open>c\<close> of one character: the pieces of \<open>s\<close> between
  the occurrences of \<open>c\<close>.  The result is never the empty list (\<open>"".split(",")\<close> is
  \<open>[""]\<close>), so the first branch of the \<open>case\<close> below is never taken; it is there
  to keep the recursion structural.
\<close>

fun split_on :: "char \<Rightarrow> string \<Rightarrow> string list" where
  "split_on c [] = [[]]"
| "split_on c (x # xs) =
     (if x = c then [] # split_on c xs
      else (case split_on c xs of
              [] \<Rightarrow> [[x]]
            | w # ws \<Rightarrow> (x # w) # ws))"

section \<open>parse_dependencies\<close>

text \<open>
  \<^verbatim>\<open>
  def parse_dependencies(dep_str):
      deps = []
      for dep in dep_str.split(","):
          dep = dep.strip()
          if not dep:
              continue
          alternatives = dep.split("|")
          first_alt = alternatives[0].strip()
          pkg = first_alt.split(" ")[0]
          deps.append(pkg)
      return deps
  \<close>
  The \<open>for\<close> loop is the recursion \<open>parse_dependencies_loop\<close> over the pieces, with
  the list \<open>deps\<close> as accumulator.  The two reads \<open>[0]\<close> are \<^const>\<open>hd\<close>: they are
  applied to results of \<^const>\<open>split_on\<close>, which are not empty
  (lemma \<open>split_on_not_Nil\<close>), so Python's IndexError cannot occur there.
\<close>

fun parse_dependencies_loop :: "string list \<Rightarrow> string list \<Rightarrow> string list" where
  "parse_dependencies_loop [] deps = deps"
| "parse_dependencies_loop (dep0 # rest) deps =
     (let dep = strip dep0 in
      if dep = [] then parse_dependencies_loop rest deps
      else
        let alternatives = split_on (CHR ''|'') dep;
            first_alt = strip (hd alternatives);
            pkg = hd (split_on (CHR '' '') first_alt)
        in parse_dependencies_loop rest (deps @ [pkg]))"

definition parse_dependencies :: "string \<Rightarrow> string list" where
  "parse_dependencies dep_str = parse_dependencies_loop (split_on (CHR '','') dep_str) []"

section \<open>The index\<close>

text \<open>
  The index \<open>packages\<close> is a Python dictionary from package names to records, and a
  record is a dictionary from field names to values.  Both are finite maps.
\<close>

type_synonym pkg_info = "(string, string) fmap"
type_synonym index = "(string, pkg_info) fmap"

section \<open>resolve_dependencies\<close>

text \<open>
  \<^verbatim>\<open>
  def resolve_dependencies(package_name, packages, resolved=None, seen=None):
      if resolved is None:
          resolved = set()
      if seen is None:
          seen = set()
      if package_name in resolved:
          return resolved
      if package_name in seen:
          return resolved
      seen.add(package_name)
      if package_name not in packages:
          print(f"Warning: {package_name} not found in package list")
          return resolved
      pkg_info = packages[package_name]
      if "Depends" in pkg_info:
          dep_list = parse_dependencies(pkg_info["Depends"])
          for dep in dep_list:
              resolve_dependencies(dep, packages, resolved, seen)
      resolved.add(package_name)
      return resolved
  \<close>
  The two sets are mutable objects shared by all recursive calls, and \<open>print\<close> writes to
  the standard output.  The model passes them as a state: the sets \<open>resolved\<close> and
  \<open>seen\<close>, and \<open>out\<close>, the lines printed so far.  The function returns the state
  after the call; the value the Python function returns is its component \<open>resolved\<close>.
  The \<open>for\<close> loop is \<open>resolve_dependencies_loop\<close>.

  Both reads \<open>packages[package_name]\<close> and \<open>pkg_info["Depends"]\<close> come after a
  membership test, so the function has no statement that raises.  The interpreter's
  limit on the recursion depth is not part of the model.
\<close>

record resolve_state =
  resolved :: "string set"
  seen :: "string set"
  out :: "string list"

definition warning_not_found :: "string \<Rightarrow> string" where
  "warning_not_found package_name =
     ''Warning: '' @ package_name @ '' not found in package list''"

function (domintros) resolve_dependencies :: "string \<Rightarrow> index \<Rightarrow> resolve_state \<Rightarrow> resolve_state"
  and resolve_dependencies_loop ::
    "string list \<Rightarrow> index \<Rightarrow> resolve_state \<Rightarrow> resolve_state" where
  "resolve_dependencies package_name packages st =
     (if package_name \<in> resolved st then st
      else if package_name \<in> seen st then st
      else
        let st1 = st\<lparr>seen := insert package_name (seen st)\<rparr> in
        case fmlookup packages package_name of
          None \<Rightarrow> st1\<lparr>out := out st1 @ [warning_not_found package_name]\<rparr>
        | Some pkg_info \<Rightarrow>
            let st2 = (case fmlookup pkg_info ''Depends'' of
                         None \<Rightarrow> st1
                       | Some dep_str \<Rightarrow>
                           resolve_dependencies_loop (parse_dependencies dep_str) packages st1)
            in st2\<lparr>resolved := insert package_name (resolved st2)\<rparr>)"
| "resolve_dependencies_loop [] packages st = st"
| "resolve_dependencies_loop (dep # rest) packages st =
     resolve_dependencies_loop rest packages (resolve_dependencies dep packages st)"
  by pat_completeness auto

text \<open>
  The recursion is nested: the state of a later iteration of the loop is the result of
  an earlier recursive call.  Termination needs that a call never removes a name from
  \<open>seen\<close>, first for the arguments on which the recursion is known to end.
\<close>

lemma seen_mono_dom:
  "resolve_dependencies_resolve_dependencies_loop_dom (Inl (n, P, st)) \<Longrightarrow>
     seen st \<subseteq> seen (resolve_dependencies n P st)"
  "resolve_dependencies_resolve_dependencies_loop_dom (Inr (l, P, st)) \<Longrightarrow>
     seen st \<subseteq> seen (resolve_dependencies_loop l P st)"
proof (induction n P st and l P st
       rule: resolve_dependencies_resolve_dependencies_loop.pinduct)
  case (1 n P st)
  then show ?case
    by (auto simp: resolve_dependencies.psimps Let_def split: option.splits)
next
  case (2 P st)
  then show ?case by (simp add: resolve_dependencies_loop.psimps)
next
  case (3 d ds P st)
  then show ?case by (auto simp: resolve_dependencies_loop.psimps)
qed

text \<open>
  Every call that goes on to recurse adds to \<open>seen\<close> a name of the index that was not
  there, so the number of names of the index outside \<open>seen\<close> decreases; inside the loop
  the rest of the list gets shorter.
\<close>

termination resolve_dependencies
proof (relation "inv_image (less_than <*lex*> less_than)
         (\<lambda>x. case x of
            Inl (n, P, st) \<Rightarrow> (card (fmdom' P - seen st), 0)
          | Inr (l, P, st) \<Rightarrow> (card (fmdom' P - seen st), Suc (length l)))", goal_cases)
  case 1
  then show ?case by auto
next
  case (2 n P st st1 info dep_str)
  have "n \<in> fmdom' P - seen st" using 2 by (auto simp: fmdom'I)
  then have "card (fmdom' P - insert n (seen st)) < card (fmdom' P - seen st)"
    by (metis Diff_insert card_Diff1_less finite_Diff finite_fmdom')
  then show ?case using 2 by simp
next
  case (3 d ds P st)
  then show ?case by simp
next
  case (4 d ds P st)
  have "fmdom' P - seen (resolve_dependencies d P st) \<subseteq> fmdom' P - seen st"
    using seen_mono_dom(1)[OF 4] by auto
  then have "card (fmdom' P - seen (resolve_dependencies d P st)) \<le> card (fmdom' P - seen st)"
    by (simp add: card_mono)
  then show ?case by auto
qed

declare resolve_dependencies.simps [simp del]

text \<open>
  The call \<open>resolve_dependencies(package_name, packages)\<close> of \<open>main\<close> leaves both
  optional arguments out, so the function makes two new empty sets.  \<open>stdout\<close> is
  what has been printed before the call.  \<open>resolve\<close> is the set that call returns.
\<close>

definition fresh_state :: "string list \<Rightarrow> resolve_state" where
  "fresh_state stdout = \<lparr>resolved = {}, seen = {}, out = stdout\<rparr>"

definition call_resolve_dependencies :: "string \<Rightarrow> index \<Rightarrow> string list \<Rightarrow> resolve_state" where
  "call_resolve_dependencies package_name packages stdout =
     resolve_dependencies package_name packages (fresh_state stdout)"

definition resolve :: "string \<Rightarrow> index \<Rightarrow> string set" where
  "resolve package_name packages = resolved (call_resolve_dependencies package_name packages [])"

section \<open>compute_install_order\<close>

text \<open>
  \<^verbatim>\<open>
  def compute_install_order(resolved, packages):
      order = []
      visited = set()

      def dfs(pkg):
          if pkg in visited:
              return
          visited.add(pkg)
          if pkg in packages and "Depends" in packages[pkg]:
              for dep in parse_dependencies(packages[pkg]["Depends"]):
                  if dep in resolved:
                      dfs(dep)
          order.append(pkg)

      for pkg in resolved:
          if pkg not in visited:
              dfs(pkg)
      return order
  \<close>
  \<open>dfs\<close> changes the list \<open>order\<close> and the set \<open>visited\<close> of the enclosing call; the
  model passes them as a state.  \<open>closure\<close> is the argument \<open>resolved\<close> of the
  enclosing call, which \<open>dfs\<close> only tests for membership.

  \<open>resolved\<close> is a Python set, and the order in which the last loop goes through it
  is not fixed by the language.  \<open>compute_install_order\<close> therefore takes the set as
  the list \<open>resolved_iter\<close> of its members in the order of that iteration; what is proved
  of it for every list holds whatever that order is.
\<close>

record dfs_state =
  order :: "string list"
  visited :: "string set"

function dfs :: "string set \<Rightarrow> index \<Rightarrow> string \<Rightarrow> dfs_state \<Rightarrow> dfs_state"
  and dfs_loop :: "string set \<Rightarrow> index \<Rightarrow> string list \<Rightarrow> dfs_state \<Rightarrow> dfs_state" where
  "dfs closure packages pkg st =
     (if pkg \<in> visited st then st
      else
        let st1 = st\<lparr>visited := insert pkg (visited st)\<rparr>;
            st2 = (case fmlookup packages pkg of
                     None \<Rightarrow> st1
                   | Some pkg_info \<Rightarrow>
                       (case fmlookup pkg_info ''Depends'' of
                          None \<Rightarrow> st1
                        | Some dep_str \<Rightarrow>
                            dfs_loop closure packages (parse_dependencies dep_str) st1))
        in st2\<lparr>order := order st2 @ [pkg]\<rparr>)"
| "dfs_loop closure packages [] st = st"
| "dfs_loop closure packages (dep # rest) st =
     dfs_loop closure packages rest
       (if dep \<in> closure then dfs closure packages dep st else st)"
  by pat_completeness auto

lemma visited_mono_dom:
  "dfs_dfs_loop_dom (Inl (C, P, n, st)) \<Longrightarrow> visited st \<subseteq> visited (dfs C P n st)"
  "dfs_dfs_loop_dom (Inr (C, P, l, st)) \<Longrightarrow> visited st \<subseteq> visited (dfs_loop C P l st)"
proof (induction C P n st and C P l st rule: dfs_dfs_loop.pinduct)
  case (1 C P n st)
  then show ?case
    by (auto simp: dfs.psimps Let_def split: option.splits)
next
  case (2 C P st)
  then show ?case by (simp add: dfs_loop.psimps)
next
  case (3 C P d ds st)
  then show ?case by (auto simp: dfs_loop.psimps split: if_splits)
qed

text \<open>
  \<open>dfs\<close> recurses only below a package that has a record in the index and was not
  visited, and marks it visited first.
\<close>

termination dfs
proof (relation "inv_image (less_than <*lex*> less_than)
         (\<lambda>x. case x of
            Inl (C, P, n, st) \<Rightarrow> (card (fmdom' P - visited st), 0)
          | Inr (C, P, l, st) \<Rightarrow> (card (fmdom' P - visited st), Suc (length l)))", goal_cases)
  case 1
  then show ?case by auto
next
  case (2 C P n st st1 info dep_str)
  have "n \<in> fmdom' P - visited st" using 2 by (auto simp: fmdom'I)
  then have "card (fmdom' P - insert n (visited st)) < card (fmdom' P - visited st)"
    by (metis Diff_insert card_Diff1_less finite_Diff finite_fmdom')
  then show ?case using 2 by simp
next
  case (3 C P d ds st)
  then show ?case by simp
next
  case (4 C P d ds st)
  show ?case
  proof (cases "d \<in> C")
    case True
    have "dfs_dfs_loop_dom (Inl (C, P, d, st))" using 4 True by simp
    then have "fmdom' P - visited (dfs C P d st) \<subseteq> fmdom' P - visited st"
      using visited_mono_dom(1) by blast
    then have "card (fmdom' P - visited (dfs C P d st)) \<le> card (fmdom' P - visited st)"
      by (simp add: card_mono)
    then show ?thesis using True by auto
  next
    case False
    then show ?thesis by simp
  qed
qed

declare dfs.simps [simp del]

fun compute_install_order_loop ::
  "string set \<Rightarrow> index \<Rightarrow> string list \<Rightarrow> dfs_state \<Rightarrow> dfs_state" where
  "compute_install_order_loop closure packages [] st = st"
| "compute_install_order_loop closure packages (pkg # rest) st =
     compute_install_order_loop closure packages rest
       (if pkg \<notin> visited st then dfs closure packages pkg st else st)"

definition compute_install_order :: "string list \<Rightarrow> index \<Rightarrow> string list" where
  "compute_install_order resolved_iter packages =
     order (compute_install_order_loop (set resolved_iter) packages resolved_iter
              \<lparr>order = [], visited = {}\<rparr>)"

section \<open>The line loop of parse_packages_file\<close>

text \<open>
  \<^verbatim>\<open>
        pkg_info = {}
        lines = entry.splitlines()
        key = None
        for line in lines:
            # Handle line continuations
            if line.startswith(" "):
                if key:
                    pkg_info[key] += " " + line.strip()
            elif ":" in line:
                key, value = line.split(":", 1)
                key = key.strip()
                value = value.strip()
                pkg_info[key] = value
  \<close>
  The state of the loop is the record \<open>pkg_info\<close> and the variable \<open>key\<close>, which is
  \<open>None\<close> or a string.  \<open>if key\<close> holds for a string that is not empty.
  \<open>pkg_info[key] += ...\<close> reads the old value first and raises KeyError when there is
  none; unpacking the result of \<open>split\<close> into two variables raises ValueError when there
  are not two pieces.  Both are branches of the model.
\<close>

datatype error = KeyError string | ValueError

record parse_state =
  pkg_info :: "(string, string) fmap"
  key :: "string option"

definition startswith_space :: "string \<Rightarrow> bool" where
  "startswith_space line = (case line of [] \<Rightarrow> False | c # _ \<Rightarrow> c = CHR '' '')"

text \<open>\<open>s.split(c, 1)\<close>: split at the first occurrence of \<open>c\<close> only.\<close>

definition split_on_max1 :: "char \<Rightarrow> string \<Rightarrow> string list" where
  "split_on_max1 c s =
     (case dropWhile (\<lambda>x. x \<noteq> c) s of
        [] \<Rightarrow> [s]
      | _ # after \<Rightarrow> [takeWhile (\<lambda>x. x \<noteq> c) s, after])"

definition parse_line :: "string \<Rightarrow> parse_state \<Rightarrow> error + parse_state" where
  "parse_line line st =
     (if startswith_space line then
        (case key st of
           None \<Rightarrow> Inr st
         | Some k \<Rightarrow>
             if k = [] then Inr st
             else (case fmlookup (pkg_info st) k of
                     None \<Rightarrow> Inl (KeyError k)
                   | Some v \<Rightarrow>
                       Inr (st\<lparr>pkg_info := fmupd k (v @ '' '' @ strip line) (pkg_info st)\<rparr>)))
      else if CHR '':'' \<in> set line then
        (case split_on_max1 (CHR '':'') line of
           [k0, value0] \<Rightarrow>
             let k = strip k0; val = strip value0
             in Inr (st\<lparr>key := Some k, pkg_info := fmupd k val (pkg_info st)\<rparr>)
         | _ \<Rightarrow> Inl ValueError)
      else Inr st)"

fun parse_lines :: "string list \<Rightarrow> parse_state \<Rightarrow> error + parse_state" where
  "parse_lines [] st = Inr st"
| "parse_lines (line # rest) st =
     (case parse_line line st of
        Inl e \<Rightarrow> Inl e
      | Inr st' \<Rightarrow> parse_lines rest st')"

definition parse_entry_lines :: "string list \<Rightarrow> error + parse_state" where
  "parse_entry_lines lines = parse_lines lines \<lparr>pkg_info = fmempty, key = None\<rparr>"

text \<open>
  Notions to state what the loop does to a record.  A key line is a line that the loop
  takes as \<open>Key: value\<close>: it does not begin with a space and contains a colon.  The most
  recently seen key of a list of lines is the key of its last key line.
  \<open>entry_field ls k\<close> is the value of field \<open>k\<close> in the record built from the lines
  \<open>ls\<close>.
\<close>

definition is_key_line :: "string \<Rightarrow> bool" where
  "is_key_line line = (\<not> startswith_space line \<and> CHR '':'' \<in> set line)"

definition key_of_line :: "string \<Rightarrow> string" where
  "key_of_line line = strip (takeWhile (\<lambda>x. x \<noteq> CHR '':'') line)"

definition most_recent_key :: "string list \<Rightarrow> string option" where
  "most_recent_key ls =
     (case rev (filter is_key_line ls) of
        [] \<Rightarrow> None
      | line # _ \<Rightarrow> Some (key_of_line line))"

definition entry_field :: "string list \<Rightarrow> string \<Rightarrow> string option" where
  "entry_field ls k =
     (case parse_entry_lines ls of
        Inl e \<Rightarrow> None
      | Inr st \<Rightarrow> fmlookup (pkg_info st) k)"

section \<open>Notions used to state the properties\<close>

text \<open>
  The first-alternative dependencies of a package: what both \<open>resolve_dependencies\<close>
  and \<open>dfs\<close> iterate over, the parsed field \<open>Depends\<close> of the package's record, and
  nothing for a package without a record or without that field.
\<close>

definition first_alt_deps :: "index \<Rightarrow> string \<Rightarrow> string list" where
  "first_alt_deps packages p =
     (case fmlookup packages p of
        None \<Rightarrow> []
      | Some info \<Rightarrow>
          (case fmlookup info ''Depends'' of
             None \<Rightarrow> []
           | Some dep_str \<Rightarrow> parse_dependencies dep_str))"

text \<open>The dependency edges between members of a set of packages.\<close>

definition dep_edges :: "index \<Rightarrow> string set \<Rightarrow> (string \<times> string) set" where
  "dep_edges packages closure =
     {(p, d). p \<in> closure \<and> d \<in> closure \<and> d \<in> set (first_alt_deps packages p)}"

text \<open>The position of the first occurrence of \<open>x\<close> in a list (its length when there is none).\<close>

fun position :: "'a \<Rightarrow> 'a list \<Rightarrow> nat" where
  "position x [] = 0"
| "position x (y # ys) = (if x = y then 0 else Suc (position x ys))"

text \<open>The name that \<open>parse_dependencies\<close> keeps of one candidate of a group.\<close>

definition candidate_name :: "string \<Rightarrow> string" where
  "candidate_name c = hd (split_on (CHR '' '') (strip c))"

text \<open>Every dependency of a resolved package has been visited.\<close>

definition deps_seen :: "index \<Rightarrow> resolve_state \<Rightarrow> bool" where
  "deps_seen P st = (\<forall>p \<in> resolved st. set (first_alt_deps P p) \<subseteq> seen st \<union> resolved st)"

subsection \<open>Invariants of the depth-first search\<close>

text \<open>
  \<open>order_ok\<close>: every member of the list has each of its dependencies in the closure
  either earlier in the list or on a dependency cycle through itself.
  \<open>dfs_inv\<close>: what is in \<open>order\<close> has been visited, and is there once.
\<close>

definition order_ok :: "index \<Rightarrow> string set \<Rightarrow> string list \<Rightarrow> bool" where
  "order_ok P C ps =
     (\<forall>p \<in> set ps. \<forall>d \<in> set (first_alt_deps P p). d \<in> C \<longrightarrow>
        (d \<in> set ps \<and> position d ps < position p ps) \<or> (d, p) \<in> (dep_edges P C)\<^sup>+)"

definition dfs_inv :: "dfs_state \<Rightarrow> bool" where
  "dfs_inv st = (set (order st) \<subseteq> visited st \<and> distinct (order st))"

subsection \<open>The scenarios of the specification\<close>

text \<open>
  Scenario A: \<open>{A: Depends="B, C|D", B: Depends="C", C: {}, D: {}}\<close>.
  Scenario B: \<open>{A: Depends="B", B: Depends="A"}\<close>.
  Scenario C: \<open>{A: Depends="Z"}\<close>.
  The last index has a group \<open>C|D\<close> whose first candidate is missing:
  \<open>{A: Depends="C|D", D: {}}\<close>.
\<close>

definition scenario_A_index :: index where
  "scenario_A_index = fmap_of_list
     [(''A'', fmap_of_list [(''Depends'', ''B, C|D'')]),
      (''B'', fmap_of_list [(''Depends'', ''C'')]),
      (''C'', fmempty),
      (''D'', fmempty)]"

definition scenario_B_index :: index where
  "scenario_B_index = fmap_of_list
     [(''A'', fmap_of_list [(''Depends'', ''B'')]),
      (''B'', fmap_of_list [(''Depends'', ''A'')])]"

definition scenario_C_index :: index where
  "scenario_C_index = fmap_of_list [(''A'', fmap_of_list [(''Depends'', ''Z'')])]"

definition alternative_index :: index where
  "alternative_index = fmap_of_list
     [(''A'', fmap_of_list [(''Depends'', ''C|D'')]),
      (''D'', fmempty)]"

section \<open>Facts about the string functions\<close>

lemma split_on_not_Nil: "split_on c s \<noteq> []"
  by (induction s) (auto split: list.splits)

lemma is_space_simps:
  "is_space (CHR '' '')" "\<not> is_space (CHR ''|'')" "\<not> is_space (CHR '','')"
  "\<not> is_space (CHR ''a'')" "\<not> is_space (CHR ''b'')"
  by (simp_all add: is_space_def)

section \<open>Claims about parse_dependencies\<close>

text \<open>
  C10.  There are dependency fields with a non-empty comma-separated group whose first
  alternative is empty, and on them \<open>parse_dependencies\<close> returns the empty string as
  a package name instead of skipping the group: on \<open>" |b"\<close> the result is \<open>[""]\<close>, on
  \<open>"a, |b"\<close> it is \<open>["a", ""]\<close>.
\<close>

theorem parse_dependencies_empty_name:
  "parse_dependencies '' |b'' = ['''']
   \<and> parse_dependencies ''a, |b'' = [''a'', '''']"
  by (simp add: parse_dependencies_def strip_def lstrip_def rstrip_def is_space_simps Let_def)

section \<open>Facts about resolve_dependencies\<close>

text \<open>
  Every argument is in the domain of the recursion, the accessible part of the relation
  between a call and the calls it makes.
\<close>

lemma resolve_dependencies_total:
  "resolve_dependencies_resolve_dependencies_loop_dom (Inl (n, P, st))"
  "resolve_dependencies_resolve_dependencies_loop_dom (Inr (l, P, st))"
proof (induction n P st and l P st rule: resolve_dependencies_resolve_dependencies_loop.induct)
  case (1 n P st)
  show ?case
    by (rule resolve_dependencies_resolve_dependencies_loop.domintros(1)) (rule 1, simp_all)
next
  case (2 P st)
  show ?case by (rule resolve_dependencies_resolve_dependencies_loop.domintros(2))
next
  case (3 d ds P st)
  then show ?case by (rule resolve_dependencies_resolve_dependencies_loop.domintros(3))
qed

text \<open>
  The function as one equation over \<^const>\<open>first_alt_deps\<close>, and the induction rule
  that goes with it.
\<close>

lemma resolve_dependencies_unfold:
  "resolve_dependencies n P st =
     (if n \<in> resolved st \<or> n \<in> seen st then st
      else if n \<notin> fmdom' P
        then st\<lparr>seen := insert n (seen st), out := out st @ [warning_not_found n]\<rparr>
      else
        (let st2 = resolve_dependencies_loop (first_alt_deps P n) P
                     (st\<lparr>seen := insert n (seen st)\<rparr>)
         in st2\<lparr>resolved := insert n (resolved st2)\<rparr>))"
  by (auto simp: resolve_dependencies.simps[of n P st] first_alt_deps_def Let_def fmdom'_notI
           split: option.splits)

lemma resolve_induct [case_names resolve Nil Cons]:
  assumes step: "\<And>n P st.
      (n \<notin> resolved st \<Longrightarrow> n \<notin> seen st \<Longrightarrow> n \<in> fmdom' P \<Longrightarrow>
         Q (first_alt_deps P n) P (st\<lparr>seen := insert n (seen st)\<rparr>)) \<Longrightarrow> R n P st"
    and nil: "\<And>P st. Q [] P st"
    and cons: "\<And>d ds P st. R d P st \<Longrightarrow> Q ds P (resolve_dependencies d P st) \<Longrightarrow> Q (d # ds) P st"
  shows "R n P st" and "Q l P st"
proof (induction n P st and l P st rule: resolve_dependencies_resolve_dependencies_loop.induct)
  case (1 n P st)
  show ?case
  proof (rule step)
    assume a: "n \<notin> resolved st" "n \<notin> seen st" "n \<in> fmdom' P"
    then obtain info where info: "fmlookup P n = Some info"
      by (auto simp: fmdom'_alt_def)
    show "Q (first_alt_deps P n) P (st\<lparr>seen := insert n (seen st)\<rparr>)"
    proof (cases "fmlookup info ''Depends''")
      case None
      then show ?thesis using info nil by (simp add: first_alt_deps_def)
    next
      case (Some dep_str)
      then show ?thesis using 1[OF a(1) a(2) refl info Some] info
        by (simp add: first_alt_deps_def)
    qed
  qed
next
  case (2 P st)
  show ?case by (rule nil)
next
  case (3 d ds P st)
  then show ?case by (intro cons)
qed

lemma resolve_mono:
  "seen st \<subseteq> seen (resolve_dependencies n P st) \<and>
   resolved st \<subseteq> resolved (resolve_dependencies n P st)"
  "seen st \<subseteq> seen (resolve_dependencies_loop l P st) \<and>
   resolved st \<subseteq> resolved (resolve_dependencies_loop l P st)"
proof (induction n P st and l P st rule: resolve_induct)
  case (resolve n P st)
  then show ?case
    by (auto simp: resolve_dependencies_unfold[of n P st] Let_def)
next
  case (Nil P st)
  then show ?case by simp
next
  case (Cons d ds P st)
  then show ?case by auto
qed

text \<open>What a call adds to \<open>resolved\<close> is what it adds to \<open>seen\<close>, within the index.\<close>

lemma resolve_new:
  "resolved (resolve_dependencies n P st) =
     resolved st \<union> ((seen (resolve_dependencies n P st) - seen st) \<inter> fmdom' P)"
  "resolved (resolve_dependencies_loop l P st) =
     resolved st \<union> ((seen (resolve_dependencies_loop l P st) - seen st) \<inter> fmdom' P)"
proof (induction n P st and l P st rule: resolve_induct)
  case (resolve n P st)
  show ?case
  proof (cases "n \<notin> resolved st \<and> n \<notin> seen st \<and> n \<in> fmdom' P")
    case True
    let ?st1 = "st\<lparr>seen := insert n (seen st)\<rparr>"
    let ?st2 = "resolve_dependencies_loop (first_alt_deps P n) P ?st1"
    have ih: "resolved ?st2 = resolved ?st1 \<union> ((seen ?st2 - seen ?st1) \<inter> fmdom' P)"
      using resolve True by blast
    have m: "seen ?st1 \<subseteq> seen ?st2" using resolve_mono(2) by blast
    have r: "resolve_dependencies n P st = ?st2\<lparr>resolved := insert n (resolved ?st2)\<rparr>"
      using True by (simp add: resolve_dependencies_unfold[of n P st] Let_def)
    show ?thesis unfolding r using ih m True by auto
  next
    case False
    then show ?thesis by (auto simp: resolve_dependencies_unfold[of n P st])
  qed
next
  case (Nil P st)
  then show ?case by simp
next
  case (Cons d ds P st)
  have m1: "seen st \<subseteq> seen (resolve_dependencies d P st)" using resolve_mono(1) by blast
  have m2: "seen (resolve_dependencies d P st) \<subseteq> seen (resolve_dependencies_loop ds P (resolve_dependencies d P st))"
    using resolve_mono(2) by blast
  show ?case using Cons m1 m2 by auto
qed

text \<open>After a call its argument is in \<open>seen\<close>, unless it was resolved before.\<close>

lemma resolve_target:
  "n \<in> seen (resolve_dependencies n P st) \<or> n \<in> resolved st"
proof (cases "n \<notin> resolved st \<and> n \<notin> seen st \<and> n \<in> fmdom' P")
  case True
  let ?st1 = "st\<lparr>seen := insert n (seen st)\<rparr>"
  have "seen ?st1 \<subseteq> seen (resolve_dependencies_loop (first_alt_deps P n) P ?st1)"
    using resolve_mono(2) by blast
  then show ?thesis using True
    by (auto simp: resolve_dependencies_unfold[of n P st] Let_def)
next
  case False
  then show ?thesis by (auto simp: resolve_dependencies_unfold[of n P st])
qed

lemma resolve_loop_targets:
  "set l \<subseteq> seen (resolve_dependencies_loop l P st) \<union> resolved (resolve_dependencies_loop l P st)"
proof (induction l arbitrary: st)
  case Nil
  then show ?case by simp
next
  case (Cons d ds)
  let ?st1 = "resolve_dependencies d P st"
  have "d \<in> seen ?st1 \<union> resolved ?st1" using resolve_target[of d P st] resolve_mono(1)[of st d P] by auto
  moreover have "seen ?st1 \<subseteq> seen (resolve_dependencies_loop ds P ?st1)"
    "resolved ?st1 \<subseteq> resolved (resolve_dependencies_loop ds P ?st1)"
    using resolve_mono(2) by blast+
  ultimately show ?case using Cons[of ?st1] by auto
qed

lemma resolve_deps_seen:
  "deps_seen P st \<Longrightarrow> deps_seen P (resolve_dependencies n P st)"
  "deps_seen P st \<Longrightarrow> deps_seen P (resolve_dependencies_loop l P st)"
proof (induction n P st and l P st rule: resolve_induct)
  case (resolve n P st)
  show ?case
  proof (cases "n \<notin> resolved st \<and> n \<notin> seen st \<and> n \<in> fmdom' P")
    case True
    let ?st1 = "st\<lparr>seen := insert n (seen st)\<rparr>"
    let ?st2 = "resolve_dependencies_loop (first_alt_deps P n) P ?st1"
    have "deps_seen P ?st1" using resolve.prems by (auto simp: deps_seen_def)
    then have ih: "deps_seen P ?st2" using resolve.IH True by blast
    have t: "set (first_alt_deps P n) \<subseteq> seen ?st2 \<union> resolved ?st2"
      by (rule resolve_loop_targets)
    have r: "resolve_dependencies n P st = ?st2\<lparr>resolved := insert n (resolved ?st2)\<rparr>"
      using True by (simp add: resolve_dependencies_unfold[of n P st] Let_def)
    show ?thesis unfolding r using ih t by (auto simp: deps_seen_def)
  next
    case False
    then show ?thesis using resolve.prems
      by (auto simp: resolve_dependencies_unfold[of n P st] deps_seen_def)
  qed
next
  case (Nil P st)
  then show ?case by simp
next
  case (Cons d ds P st)
  then show ?case by simp
qed

lemma resolve_out:
  "(\<exists>ws. out (resolve_dependencies n P st) = out st @ ws) \<and>
   (\<forall>m \<in> seen (resolve_dependencies n P st) - seen st.
      m \<notin> fmdom' P \<longrightarrow> warning_not_found m \<in> set (out (resolve_dependencies n P st)))"
  "(\<exists>ws. out (resolve_dependencies_loop l P st) = out st @ ws) \<and>
   (\<forall>m \<in> seen (resolve_dependencies_loop l P st) - seen st.
      m \<notin> fmdom' P \<longrightarrow> warning_not_found m \<in> set (out (resolve_dependencies_loop l P st)))"
proof (induction n P st and l P st rule: resolve_induct)
  case (resolve n P st)
  show ?case
  proof (cases "n \<notin> resolved st \<and> n \<notin> seen st \<and> n \<in> fmdom' P")
    case True
    let ?st1 = "st\<lparr>seen := insert n (seen st)\<rparr>"
    let ?st2 = "resolve_dependencies_loop (first_alt_deps P n) P ?st1"
    have r: "resolve_dependencies n P st = ?st2\<lparr>resolved := insert n (resolved ?st2)\<rparr>"
      using True by (simp add: resolve_dependencies_unfold[of n P st] Let_def)
    have ih: "(\<exists>ws. out ?st2 = out ?st1 @ ws) \<and>
      (\<forall>m \<in> seen ?st2 - seen ?st1. m \<notin> fmdom' P \<longrightarrow> warning_not_found m \<in> set (out ?st2))"
      using resolve True by blast
    show ?thesis unfolding r using ih True by auto
  next
    case False
    then show ?thesis by (auto simp: resolve_dependencies_unfold[of n P st])
  qed
next
  case (Nil P st)
  then show ?case by simp
next
  case (Cons d ds P st)
  let ?st1 = "resolve_dependencies d P st"
  let ?st2 = "resolve_dependencies_loop ds P ?st1"
  from Cons obtain ws1 ws2 where w: "out ?st1 = out st @ ws1" "out ?st2 = out ?st1 @ ws2"
    by blast
  have a: "\<exists>ws. out ?st2 = out st @ ws" using w by simp
  have b: "set (out ?st1) \<subseteq> set (out ?st2)" using w by auto
  have "\<forall>m \<in> seen ?st2 - seen st. m \<notin> fmdom' P \<longrightarrow> warning_not_found m \<in> set (out ?st2)"
  proof (intro ballI impI)
    fix m assume m: "m \<in> seen ?st2 - seen st" "m \<notin> fmdom' P"
    show "warning_not_found m \<in> set (out ?st2)"
    proof (cases "m \<in> seen ?st1")
      case True
      then have "warning_not_found m \<in> set (out ?st1)" using Cons.IH(1) m by blast
      then show ?thesis using b by blast
    next
      case False
      then show ?thesis using Cons.IH(2) m by blast
    qed
  qed
  then show ?case using a by simp
qed

lemma resolve_in_index:
  "resolved st \<subseteq> fmdom' P \<Longrightarrow> resolved (resolve_dependencies n P st) \<subseteq> fmdom' P"
  using resolve_new(1)[of n P st] by blast

lemma resolve_out_irrelevant:
  "\<forall>st'::resolve_state. resolved st' = resolved st \<and> seen st' = seen st \<longrightarrow>
     resolved (resolve_dependencies n P st') = resolved (resolve_dependencies n P st) \<and>
     seen (resolve_dependencies n P st') = seen (resolve_dependencies n P st)"
  "\<forall>st'::resolve_state. resolved st' = resolved st \<and> seen st' = seen st \<longrightarrow>
     resolved (resolve_dependencies_loop l P st') = resolved (resolve_dependencies_loop l P st) \<and>
     seen (resolve_dependencies_loop l P st') = seen (resolve_dependencies_loop l P st)"
proof (induction n P st and l P st rule: resolve_induct)
  case (resolve n P st)
  show ?case
  proof (intro allI impI)
    fix st' :: resolve_state
    assume eq: "resolved st' = resolved st \<and> seen st' = seen st"
    show "resolved (resolve_dependencies n P st') = resolved (resolve_dependencies n P st) \<and>
          seen (resolve_dependencies n P st') = seen (resolve_dependencies n P st)"
    proof (cases "n \<notin> resolved st \<and> n \<notin> seen st \<and> n \<in> fmdom' P")
      case True
      let ?st1 = "st\<lparr>seen := insert n (seen st)\<rparr>"
      let ?st1' = "st'\<lparr>seen := insert n (seen st')\<rparr>"
      let ?st2 = "resolve_dependencies_loop (first_alt_deps P n) P ?st1"
      let ?st2' = "resolve_dependencies_loop (first_alt_deps P n) P ?st1'"
      have r: "resolve_dependencies n P st = ?st2\<lparr>resolved := insert n (resolved ?st2)\<rparr>"
        using True by (simp add: resolve_dependencies_unfold[of n P st] Let_def)
      have r': "resolve_dependencies n P st' = ?st2'\<lparr>resolved := insert n (resolved ?st2')\<rparr>"
        using True eq by (simp add: resolve_dependencies_unfold[of n P st'] Let_def)
      have "resolved ?st1' = resolved ?st1 \<and> seen ?st1' = seen ?st1" using eq by simp
      then have "resolved ?st2' = resolved ?st2 \<and> seen ?st2' = seen ?st2"
        using resolve True by blast
      then show ?thesis unfolding r r' by simp
    next
      case False
      then consider "n \<in> resolved st \<or> n \<in> seen st" | "n \<notin> resolved st" "n \<notin> seen st" "n \<notin> fmdom' P"
        by blast
      then show ?thesis
      proof cases
        case 1
        then have "resolve_dependencies n P st = st" "resolve_dependencies n P st' = st'"
          using eq by (simp_all add: resolve_dependencies_unfold[of n P st] resolve_dependencies_unfold[of n P st'])
        then show ?thesis using eq by simp
      next
        case 2
        then have "resolve_dependencies n P st = st\<lparr>seen := insert n (seen st), out := out st @ [warning_not_found n]\<rparr>"
           "resolve_dependencies n P st' = st'\<lparr>seen := insert n (seen st'), out := out st' @ [warning_not_found n]\<rparr>"
          using eq by (simp_all add: resolve_dependencies_unfold[of n P st] resolve_dependencies_unfold[of n P st'])
        then show ?thesis using eq by simp
      qed
    qed
  qed
next
  case (Nil P st)
  then show ?case by simp
next
  case (Cons d ds P st)
  show ?case
  proof (intro allI impI)
    fix st' :: resolve_state
    assume eq: "resolved st' = resolved st \<and> seen st' = seen st"
    then have "resolved (resolve_dependencies d P st') = resolved (resolve_dependencies d P st) \<and>
          seen (resolve_dependencies d P st') = seen (resolve_dependencies d P st)"
      using Cons.IH(1) by blast
    then show "resolved (resolve_dependencies_loop (d # ds) P st') =
          resolved (resolve_dependencies_loop (d # ds) P st) \<and>
          seen (resolve_dependencies_loop (d # ds) P st') =
          seen (resolve_dependencies_loop (d # ds) P st)"
      using Cons.IH(2)[rule_format, of "resolve_dependencies d P st'"] by simp
  qed
qed

lemma resolved_call: "resolved (call_resolve_dependencies root P stdout) = resolve root P"
  unfolding resolve_def call_resolve_dependencies_def
  using resolve_out_irrelevant(1)[of "fresh_state []" root P, rule_format, of "fresh_state stdout"]
  by (simp add: fresh_state_def)

subsection \<open>Evaluation of the scenarios\<close>

lemmas string_eval = parse_dependencies_def strip_def lstrip_def rstrip_def is_space_def Let_def

lemma deps_B: "first_alt_deps scenario_B_index ''A'' = [''B'']"
   "first_alt_deps scenario_B_index ''B'' = [''A'']"
  by (simp_all add: first_alt_deps_def scenario_B_index_def string_eval)

lemma dom_B: "fmdom' scenario_B_index = {''A'', ''B''}"
  by (auto simp add: scenario_B_index_def fmdom'_alt_def fmdom_of_list)

lemma scen_B: "call_resolve_dependencies ''A'' scenario_B_index stdout =
   \<lparr>resolved = {''A'', ''B''}, seen = {''A'', ''B''}, out = stdout\<rparr>"
  by (simp add: call_resolve_dependencies_def fresh_state_def resolve_dependencies_unfold deps_B dom_B Let_def insert_commute)

lemma deps_C: "first_alt_deps scenario_C_index ''A'' = [''Z'']"
  by (simp add: first_alt_deps_def scenario_C_index_def string_eval)

lemma dom_C: "fmdom' scenario_C_index = {''A''}"
  by (auto simp add: scenario_C_index_def fmdom'_alt_def fmdom_of_list)

lemma scen_C: "call_resolve_dependencies ''A'' scenario_C_index stdout =
   \<lparr>resolved = {''A''}, seen = {''A'', ''Z''}, out = stdout @ [''Warning: Z not found in package list'']\<rparr>"
  by (simp add: call_resolve_dependencies_def fresh_state_def resolve_dependencies_unfold deps_C dom_C Let_def insert_commute warning_not_found_def)

lemma deps_A:
  "first_alt_deps scenario_A_index ''A'' = [''B'', ''C'']"
  "first_alt_deps scenario_A_index ''B'' = [''C'']"
  "first_alt_deps scenario_A_index ''C'' = []"
  "first_alt_deps scenario_A_index ''D'' = []"
  by (simp_all add: first_alt_deps_def scenario_A_index_def string_eval)

lemma dom_A: "fmdom' scenario_A_index = {''A'', ''B'', ''C'', ''D''}"
  by (auto simp add: scenario_A_index_def fmdom'_alt_def fmdom_of_list)

lemma scen_A: "resolve ''A'' scenario_A_index = {''A'', ''B'', ''C''}"
  by (simp add: resolve_def call_resolve_dependencies_def fresh_state_def
        resolve_dependencies_unfold deps_A dom_A Let_def insert_commute)

lemma scen_C_absent: "''Z'' \<notin> fmdom' scenario_C_index"
  by (simp add: dom_C)

section \<open>Claims about resolve_dependencies\<close>

lemma closure_complete_state:
  assumes "resolved st \<subseteq> seen st" "deps_seen P st" "seen st \<inter> fmdom' P \<subseteq> resolved st"
  shows "\<forall>p \<in> resolved (resolve_dependencies root P st).
           \<forall>d \<in> set (first_alt_deps P p). d \<in> fmdom' P \<longrightarrow> d \<in> resolved (resolve_dependencies root P st)"
proof -
  let ?st' = "resolve_dependencies root P st"
  have ds: "deps_seen P ?st'" using assms(2) by (rule resolve_deps_seen(1))
  have new: "resolved ?st' = resolved st \<union> ((seen ?st' - seen st) \<inter> fmdom' P)"
    by (rule resolve_new(1))
  have "seen ?st' \<inter> fmdom' P \<subseteq> resolved ?st'"
    using new assms(3) by auto
  then show ?thesis using ds by (auto simp: deps_seen_def)
qed

lemma resolve_reach:
  "resolved (resolve_dependencies n P st)
     \<subseteq> resolved st \<union> {m. (n, m) \<in> (dep_edges P (fmdom' P))\<^sup>*}"
  "resolved (resolve_dependencies_loop l P st)
     \<subseteq> resolved st \<union> {m. \<exists>d \<in> set l. d \<in> fmdom' P \<and> (d, m) \<in> (dep_edges P (fmdom' P))\<^sup>*}"
proof (induction n P st and l P st rule: resolve_induct)
  case (resolve n P st)
  show ?case
  proof (cases "n \<notin> resolved st \<and> n \<notin> seen st \<and> n \<in> fmdom' P")
    case True
    let ?st1 = "st\<lparr>seen := insert n (seen st)\<rparr>"
    let ?st2 = "resolve_dependencies_loop (first_alt_deps P n) P ?st1"
    have r: "resolve_dependencies n P st = ?st2\<lparr>resolved := insert n (resolved ?st2)\<rparr>"
      using True by (simp add: resolve_dependencies_unfold[of n P st] Let_def)
    have ih: "resolved ?st2 \<subseteq> resolved ?st1 \<union>
        {m. \<exists>d \<in> set (first_alt_deps P n). d \<in> fmdom' P \<and> (d, m) \<in> (dep_edges P (fmdom' P))\<^sup>*}"
      using resolve True by blast
    have step: "(n, m) \<in> (dep_edges P (fmdom' P))\<^sup>*"
      if "d \<in> set (first_alt_deps P n)" "d \<in> fmdom' P" "(d, m) \<in> (dep_edges P (fmdom' P))\<^sup>*"
      for d m
    proof -
      have "(n, d) \<in> dep_edges P (fmdom' P)" using that True by (simp add: dep_edges_def)
      then show ?thesis using that(3) by (rule converse_rtrancl_into_rtrancl)
    qed
    show ?thesis unfolding r using ih step by auto
  next
    case False
    then show ?thesis by (auto simp: resolve_dependencies_unfold[of n P st])
  qed
next
  case (Nil P st)
  then show ?case by simp
next
  case (Cons d ds P st)
  have "resolved (resolve_dependencies d P st) \<subseteq> resolved st \<union>
          {m. d \<in> fmdom' P \<and> (d, m) \<in> (dep_edges P (fmdom' P))\<^sup>*}"
  proof (cases "d \<in> fmdom' P")
    case True
    then show ?thesis using Cons.IH(1) by auto
  next
    case False
    then show ?thesis by (simp add: resolve_dependencies_unfold[of d P st])
  qed
  then show ?case using Cons.IH(2) by auto
qed

text \<open>
  The closure of a root that is in the index is the set of the names that can be reached
  from it along first-alternative dependencies between names of the index.
\<close>

lemma resolve_reachable:
  assumes "root \<in> fmdom' P"
  shows "resolve root P = {m. (root, m) \<in> (dep_edges P (fmdom' P))\<^sup>*}"
proof
  show "resolve root P \<subseteq> {m. (root, m) \<in> (dep_edges P (fmdom' P))\<^sup>*}"
    using resolve_reach(1)[of root P "fresh_state []"]
    by (simp add: resolve_def call_resolve_dependencies_def fresh_state_def)
next
  have root: "root \<in> resolve root P"
    using assms
    by (simp add: resolve_def call_resolve_dependencies_def fresh_state_def
          resolve_dependencies_unfold[of root P] Let_def)
  have closed: "\<forall>p \<in> resolve root P. \<forall>d \<in> set (first_alt_deps P p).
                  d \<in> fmdom' P \<longrightarrow> d \<in> resolve root P"
    unfolding resolve_def call_resolve_dependencies_def
    by (rule closure_complete_state) (simp_all add: fresh_state_def deps_seen_def)
  have "m \<in> resolve root P" if "(root, m) \<in> (dep_edges P (fmdom' P))\<^sup>*" for m
    using that
  proof (induction rule: rtrancl_induct)
    case base
    then show ?case by (rule root)
  next
    case (step y z)
    then show ?case using closed by (auto simp: dep_edges_def)
  qed
  then show "{m. (root, m) \<in> (dep_edges P (fmdom' P))\<^sup>*} \<subseteq> resolve root P" by blast
qed

text \<open>
  C2.  Closure completeness: for every package \<open>p\<close> in the set that
  \<open>resolve_dependencies(root, index)\<close> returns, every first-alternative dependency
  \<open>d\<close> of \<open>p\<close> that is present in the index is in the returned set as well.  The claim
  exempts a dependency that lies back along an active recursion path; the exemption is
  never needed, since such a dependency is added when its own call returns, which is
  before the outermost call returns.  Lemma \<open>resolve_reachable\<close> above says which set
  it is.
\<close>

theorem closure_complete:
  "\<forall>p \<in> resolve root P. \<forall>d \<in> set (first_alt_deps P p).
     d \<in> fmdom' P \<longrightarrow> d \<in> resolve root P"
  unfolding resolve_def call_resolve_dependencies_def
  by (rule closure_complete_state) (simp_all add: fresh_state_def deps_seen_def)

theorem closure_complete_witness:
  "''A'' \<in> resolve ''A'' scenario_A_index
   \<and> ''B'' \<in> set (first_alt_deps scenario_A_index ''A'')
   \<and> ''B'' \<in> fmdom' scenario_A_index
   \<and> ''B'' \<in> resolve ''A'' scenario_A_index"
proof -
  have h1: "''A'' \<in> resolve ''A'' scenario_A_index" by (simp add: scen_A)
  have h2: "''B'' \<in> set (first_alt_deps scenario_A_index ''A'')" by (simp add: deps_A)
  have h3: "''B'' \<in> fmdom' scenario_A_index" by (simp add: dom_A)
  have "''B'' \<in> resolve ''A'' scenario_A_index"
    using closure_complete[of "''A''" scenario_A_index] h1 h2 h3 by blast
  then show ?thesis using h1 h2 h3 by blast
qed

text \<open>
  C3.  Root membership: if \<open>root\<close> is present in the index, it is a member of the set
  that \<open>resolve_dependencies(root, index)\<close> returns; if it is absent, that set is
  empty.
\<close>

theorem root_membership:
  "(root \<in> fmdom' P \<longrightarrow> root \<in> resolve root P)
   \<and> (root \<notin> fmdom' P \<longrightarrow> resolve root P = {})"
  by (simp add: resolve_def call_resolve_dependencies_def fresh_state_def
        resolve_dependencies_unfold[of root P] Let_def)

theorem root_membership_witness:
  "''A'' \<in> fmdom' scenario_C_index \<and> ''A'' \<in> resolve ''A'' scenario_C_index
   \<and> ''Z'' \<notin> fmdom' scenario_C_index \<and> resolve ''Z'' scenario_C_index = {}"
proof -
  have h1: "''A'' \<in> fmdom' scenario_C_index" by (simp add: dom_C)
  have h2: "''Z'' \<notin> fmdom' scenario_C_index" by (simp add: dom_C)
  show ?thesis
    using root_membership[of "''A''" scenario_C_index]
      root_membership[of "''Z''" scenario_C_index] h1 h2 by blast
qed

text \<open>
  C4.  \<open>resolve_dependencies\<close> terminates for every root and every index, cyclic ones
  included: every argument is in the domain of the recursion, the part of the call
  relation that has no infinite chain of recursive calls, for the function and for its
  loop.  In particular, on the index \<open>{A: Depends="B", B: Depends="A"}\<close> the call
  \<open>resolve_dependencies("A", index)\<close> returns a set that contains both \<open>A\<close> and
  \<open>B\<close>; it is exactly that set.
\<close>

theorem resolve_terminates:
  "resolve_dependencies_resolve_dependencies_loop_dom (Inl (root, P, st))
   \<and> resolve_dependencies_resolve_dependencies_loop_dom (Inr (l, P, st))
   \<and> resolve ''A'' scenario_B_index = {''A'', ''B''}"
  using resolve_dependencies_total(1)[of root P st] resolve_dependencies_total(2)[of l P st]
    scen_B[of "[]"]
  by (simp add: resolve_def)

text \<open>
  C8.  A name absent from the index: the call \<open>resolve_dependencies(n, index)\<close>
  prints the diagnostic and returns the empty set; no call on \<open>n\<close>, in whatever
  state, adds \<open>n\<close> to \<open>resolved\<close>; and for every absent name \<open>n\<close> that a resolution
  reaches (the names of \<open>seen\<close> are the arguments of its calls), the diagnostic for
  \<open>n\<close> is in the output and \<open>n\<close> is not in the returned set.  The diagnostic is
  printed by the first call on \<open>n\<close>; a later call finds \<open>n\<close> in \<open>seen\<close> and returns
  at once.  The function has no statement that raises, so the model has no error result.
  On the index \<open>{A: Depends="Z"}\<close> the call on \<open>A\<close> returns exactly \<open>{A}\<close> and
  prints one diagnostic, for \<open>Z\<close>.
\<close>

theorem missing_name:
  "(n \<notin> fmdom' P \<longrightarrow>
      call_resolve_dependencies n P stdout =
        \<lparr>resolved = {}, seen = {n}, out = stdout @ [warning_not_found n]\<rparr>)
   \<and> (n \<notin> fmdom' P \<longrightarrow> resolved (resolve_dependencies n P st) = resolved st)
   \<and> (n \<notin> fmdom' P \<longrightarrow> n \<in> seen (call_resolve_dependencies root P stdout) \<longrightarrow>
        warning_not_found n \<in> set (out (call_resolve_dependencies root P stdout))
        \<and> n \<notin> resolved (call_resolve_dependencies root P stdout))
   \<and> call_resolve_dependencies ''A'' scenario_C_index stdout =
        \<lparr>resolved = {''A''}, seen = {''A'', ''Z''},
         out = stdout @ [''Warning: Z not found in package list'']\<rparr>"
proof (intro conjI impI)
  assume "n \<notin> fmdom' P"
  then show "call_resolve_dependencies n P stdout =
        \<lparr>resolved = {}, seen = {n}, out = stdout @ [warning_not_found n]\<rparr>"
    by (simp add: call_resolve_dependencies_def fresh_state_def resolve_dependencies_unfold[of n P])
next
  assume "n \<notin> fmdom' P"
  then show "resolved (resolve_dependencies n P st) = resolved st"
    by (simp add: resolve_dependencies_unfold[of n P st])
next
  assume a: "n \<notin> fmdom' P" "n \<in> seen (call_resolve_dependencies root P stdout)"
  then show "warning_not_found n \<in> set (out (call_resolve_dependencies root P stdout))"
    using resolve_out(1)[of root P "fresh_state stdout"]
    by (simp add: call_resolve_dependencies_def fresh_state_def)
next
  assume a: "n \<notin> fmdom' P" "n \<in> seen (call_resolve_dependencies root P stdout)"
  have "resolved (call_resolve_dependencies root P stdout) \<subseteq> fmdom' P"
    unfolding call_resolve_dependencies_def
    by (rule resolve_in_index) (simp add: fresh_state_def)
  then show "n \<notin> resolved (call_resolve_dependencies root P stdout)" using a by blast
next
  show "call_resolve_dependencies ''A'' scenario_C_index stdout =
        \<lparr>resolved = {''A''}, seen = {''A'', ''Z''},
         out = stdout @ [''Warning: Z not found in package list'']\<rparr>"
    by (rule scen_C)
qed

theorem missing_name_witness:
  "''Z'' \<notin> fmdom' scenario_C_index
   \<and> call_resolve_dependencies ''Z'' scenario_C_index [] =
        \<lparr>resolved = {}, seen = {''Z''}, out = [warning_not_found ''Z'']\<rparr>
   \<and> resolved (resolve_dependencies ''Z'' scenario_C_index (fresh_state [])) = {}
   \<and> ''Z'' \<in> seen (call_resolve_dependencies ''A'' scenario_C_index [])
   \<and> warning_not_found ''Z'' \<in> set (out (call_resolve_dependencies ''A'' scenario_C_index []))
   \<and> ''Z'' \<notin> resolved (call_resolve_dependencies ''A'' scenario_C_index [])"
proof -
  have h1: "''Z'' \<notin> fmdom' scenario_C_index" by (rule scen_C_absent)
  have h2: "''Z'' \<in> seen (call_resolve_dependencies ''A'' scenario_C_index [])"
    by (simp add: scen_C)
  show ?thesis
    using missing_name[of "''Z''" scenario_C_index "[]" "fresh_state []" "''A''"] h1 h2
    by (simp add: fresh_state_def warning_not_found_def)
qed

text \<open>
  C9.  Idempotence: two calls \<open>resolve_dependencies(root, index)\<close> with the same
  arguments return equal sets.  Each call makes its own empty sets \<open>resolved\<close> and
  \<open>seen\<close>, and the index is only read.  What the first call leaves behind for the
  second is the text it printed, and the set a call returns does not depend on that.
\<close>

theorem resolve_idempotent:
  "resolved (call_resolve_dependencies root P (out (call_resolve_dependencies root P stdout)))
     = resolved (call_resolve_dependencies root P stdout)"
  by (simp add: resolved_call)

section \<open>Facts about compute_install_order\<close>

lemma dfs_unfold:
  "dfs C P pkg st =
     (if pkg \<in> visited st then st
      else
        (let st2 = dfs_loop C P (first_alt_deps P pkg) (st\<lparr>visited := insert pkg (visited st)\<rparr>)
         in st2\<lparr>order := order st2 @ [pkg]\<rparr>))"
  by (auto simp: dfs.simps[of C P pkg st] first_alt_deps_def Let_def split: option.splits)

lemma dfs_induct [case_names dfs Nil Cons]:
  assumes step: "\<And>C P pkg st.
      (pkg \<notin> visited st \<Longrightarrow>
         Q C P (first_alt_deps P pkg) (st\<lparr>visited := insert pkg (visited st)\<rparr>)) \<Longrightarrow> R C P pkg st"
    and nil: "\<And>C P st. Q C P [] st"
    and cons: "\<And>C P d ds st. (d \<in> C \<Longrightarrow> R C P d st) \<Longrightarrow>
         Q C P ds (if d \<in> C then dfs C P d st else st) \<Longrightarrow> Q C P (d # ds) st"
  shows "R C P pkg st" and "Q C P l st"
proof (induction C P pkg st and C P l st rule: dfs_dfs_loop.induct)
  case (1 C P pkg st)
  show ?case
  proof (rule step)
    assume a: "pkg \<notin> visited st"
    show "Q C P (first_alt_deps P pkg) (st\<lparr>visited := insert pkg (visited st)\<rparr>)"
    proof (cases "fmlookup P pkg")
      case None
      then show ?thesis using nil by (simp add: first_alt_deps_def)
    next
      case (Some info)
      show ?thesis
      proof (cases "fmlookup info ''Depends''")
        case None
        then show ?thesis using Some nil by (simp add: first_alt_deps_def)
      next
        case (Some dep_str)
        then show ?thesis using 1[OF a refl \<open>fmlookup P pkg = Some info\<close> Some] \<open>fmlookup P pkg = Some info\<close>
          by (simp add: first_alt_deps_def)
      qed
    qed
  qed
next
  case (2 C P st)
  show ?case by (rule nil)
next
  case (3 C P d ds st)
  then show ?case by (intro cons)
qed

text \<open>What a call appends to \<open>order\<close> is what it adds to \<open>visited\<close>.\<close>

lemma dfs_shape:
  "\<exists>new. order (dfs C P pkg st) = order st @ new \<and>
          visited (dfs C P pkg st) = visited st \<union> set new \<and>
          distinct new \<and> set new \<inter> visited st = {} \<and>
          set new \<subseteq> insert pkg C \<and> pkg \<in> visited st \<union> set new"
  "\<exists>new. order (dfs_loop C P l st) = order st @ new \<and>
          visited (dfs_loop C P l st) = visited st \<union> set new \<and>
          distinct new \<and> set new \<inter> visited st = {} \<and>
          set new \<subseteq> C \<and> set l \<inter> C \<subseteq> visited st \<union> set new"
proof (induction C P pkg st and C P l st rule: dfs_induct)
  case (dfs C P pkg st)
  show ?case
  proof (cases "pkg \<in> visited st")
    case True
    then show ?thesis by (simp add: dfs_unfold[of C P pkg st])
  next
    case False
    let ?st1 = "st\<lparr>visited := insert pkg (visited st)\<rparr>"
    let ?st2 = "dfs_loop C P (first_alt_deps P pkg) ?st1"
    from dfs[OF False] obtain new where new:
      "order ?st2 = order ?st1 @ new" "visited ?st2 = visited ?st1 \<union> set new"
      "distinct new" "set new \<inter> visited ?st1 = {}" "set new \<subseteq> C"
      by blast
    have r: "dfs C P pkg st = ?st2\<lparr>order := order ?st2 @ [pkg]\<rparr>"
      using False by (simp add: dfs_unfold[of C P pkg st] Let_def)
    have "order (dfs C P pkg st) = order st @ (new @ [pkg])" using r new by simp
    moreover have "visited (dfs C P pkg st) = visited st \<union> set (new @ [pkg])"
      using r new by auto
    moreover have "distinct (new @ [pkg])" using new by auto
    moreover have "set (new @ [pkg]) \<inter> visited st = {}" using new False by auto
    moreover have "set (new @ [pkg]) \<subseteq> insert pkg C" using new by auto
    moreover have "pkg \<in> visited st \<union> set (new @ [pkg])" by simp
    ultimately show ?thesis by blast
  qed
next
  case (Nil C P st)
  then show ?case by simp
next
  case (Cons C P d ds st)
  let ?st1 = "if d \<in> C then dfs C P d st else st"
  let ?st2 = "dfs_loop C P ds ?st1"
  have "\<exists>new1. order ?st1 = order st @ new1 \<and> visited ?st1 = visited st \<union> set new1 \<and>
     distinct new1 \<and> set new1 \<inter> visited st = {} \<and> set new1 \<subseteq> C \<and>
     {d} \<inter> C \<subseteq> visited st \<union> set new1"
  proof (cases "d \<in> C")
    case True
    then show ?thesis using Cons.IH(1)[OF True] by (auto simp: insert_absorb)
  next
    case False
    then show ?thesis by simp
  qed
  then obtain new1 where n1: "order ?st1 = order st @ new1" "visited ?st1 = visited st \<union> set new1"
     "distinct new1" "set new1 \<inter> visited st = {}" "set new1 \<subseteq> C"
     "{d} \<inter> C \<subseteq> visited st \<union> set new1" by blast
  from Cons.IH(2) obtain new2 where n2: "order ?st2 = order ?st1 @ new2"
     "visited ?st2 = visited ?st1 \<union> set new2"
     "distinct new2" "set new2 \<inter> visited ?st1 = {}" "set new2 \<subseteq> C"
     "set ds \<inter> C \<subseteq> visited ?st1 \<union> set new2" by blast
  have "order ?st2 = order st @ (new1 @ new2)" using n1 n2 by simp
  moreover have "visited ?st2 = visited st \<union> set (new1 @ new2)" using n1 n2 by auto
  moreover have "distinct (new1 @ new2)" using n1 n2 by auto
  moreover have "set (new1 @ new2) \<inter> visited st = {}" using n1 n2 by auto
  moreover have "set (new1 @ new2) \<subseteq> C" using n1 n2 by auto
  moreover have "set (d # ds) \<inter> C \<subseteq> visited st \<union> set (new1 @ new2)" using n1 n2 by auto
  ultimately show ?case by simp
qed

lemma dfs_top_inv:
  assumes "set (order st) = visited st" "distinct (order st)" "visited st \<subseteq> C" "pkg \<in> C"
  shows "set (order (dfs C P pkg st)) = visited (dfs C P pkg st) \<and>
         distinct (order (dfs C P pkg st)) \<and>
         visited (dfs C P pkg st) \<subseteq> C \<and>
         insert pkg (visited st) \<subseteq> visited (dfs C P pkg st)"
proof -
  obtain new where new: "order (dfs C P pkg st) = order st @ new"
    "visited (dfs C P pkg st) = visited st \<union> set new"
    "distinct new" "set new \<inter> visited st = {}" "set new \<subseteq> insert pkg C"
    "pkg \<in> visited st \<union> set new"
    using dfs_shape(1)[of C P pkg st] by blast
  show ?thesis using new assms by auto
qed

lemma compute_install_order_loop_inv:
  assumes "set (order st) = visited st" "distinct (order st)" "visited st \<subseteq> C" "set l \<subseteq> C"
  shows "set (order (compute_install_order_loop C P l st))
           = visited (compute_install_order_loop C P l st) \<and>
         distinct (order (compute_install_order_loop C P l st)) \<and>
         visited (compute_install_order_loop C P l st) \<subseteq> C \<and>
         visited st \<union> set l \<subseteq> visited (compute_install_order_loop C P l st)"
  using assms
proof (induction l arbitrary: st)
  case Nil
  then show ?case by simp
next
  case (Cons pkg rest)
  let ?st1 = "if pkg \<notin> visited st then dfs C P pkg st else st"
  have s1: "set (order ?st1) = visited ?st1 \<and> distinct (order ?st1) \<and> visited ?st1 \<subseteq> C \<and>
            insert pkg (visited st) \<subseteq> visited ?st1"
  proof (cases "pkg \<in> visited st")
    case True
    then show ?thesis using Cons.prems by auto
  next
    case False
    then show ?thesis using dfs_top_inv[of st C pkg P] Cons.prems by simp
  qed
  have "set rest \<subseteq> C" using Cons.prems by simp
  with s1 have ih: "set (order (compute_install_order_loop C P rest ?st1))
           = visited (compute_install_order_loop C P rest ?st1) \<and>
         distinct (order (compute_install_order_loop C P rest ?st1)) \<and>
         visited (compute_install_order_loop C P rest ?st1) \<subseteq> C \<and>
         visited ?st1 \<union> set rest \<subseteq> visited (compute_install_order_loop C P rest ?st1)"
    using Cons.IH[of ?st1] by blast
  have "compute_install_order_loop C P (pkg # rest) st = compute_install_order_loop C P rest ?st1"
    by simp
  then show ?case using ih s1 by auto
qed

lemma compute_install_order_perm:
  "set (compute_install_order ws P) = set ws \<and> distinct (compute_install_order ws P)"
proof -
  let ?st0 = "\<lparr>order = [], visited = {}\<rparr>"
  have "set (order ?st0) = visited ?st0" "distinct (order ?st0)" "visited ?st0 \<subseteq> set ws"
    "set ws \<subseteq> set ws" by simp_all
  from compute_install_order_loop_inv[OF this, of P]
  show ?thesis unfolding compute_install_order_def by auto
qed

lemma position_append_in: "x \<in> set xs \<Longrightarrow> position x (xs @ ys) = position x xs"
  by (induction xs) auto

lemma position_append_notin: "x \<notin> set xs \<Longrightarrow> position x (xs @ ys) = length xs + position x ys"
  by (induction xs) auto

lemma position_less_length: "x \<in> set xs \<Longrightarrow> position x xs < length xs"
  by (induction xs) auto

lemma order_ok_append:
  assumes ok: "order_ok P C ps" and x: "x \<notin> set ps"
    and deps: "\<forall>d \<in> set (first_alt_deps P x). d \<in> C \<longrightarrow> d \<in> set ps \<or> (d, x) \<in> (dep_edges P C)\<^sup>+"
  shows "order_ok P C (ps @ [x])"
  unfolding order_ok_def
proof (intro ballI impI)
  fix p d
  assume p: "p \<in> set (ps @ [x])" and d: "d \<in> set (first_alt_deps P p)" "d \<in> C"
  show "(d \<in> set (ps @ [x]) \<and> position d (ps @ [x]) < position p (ps @ [x])) \<or>
        (d, p) \<in> (dep_edges P C)\<^sup>+"
  proof (cases "p \<in> set ps")
    case True
    then have "(d \<in> set ps \<and> position d ps < position p ps) \<or> (d, p) \<in> (dep_edges P C)\<^sup>+"
      using ok d by (auto simp: order_ok_def)
    then show ?thesis using True by (auto simp: position_append_in)
  next
    case False
    then have px: "p = x" using p by simp
    have "d \<in> set ps \<or> (d, x) \<in> (dep_edges P C)\<^sup>+" using deps d px by blast
    then show ?thesis
    proof
      assume dps: "d \<in> set ps"
      then have "position d (ps @ [x]) < length ps"
        by (simp add: position_append_in position_less_length)
      moreover have "position x (ps @ [x]) = length ps" using x by (simp add: position_append_notin)
      ultimately show ?thesis using px dps by simp
    next
      assume "(d, x) \<in> (dep_edges P C)\<^sup>+"
      then show ?thesis using px by simp
    qed
  qed
qed

lemma dfs_inv_gray:
  assumes "dfs_inv st"
  shows "dfs_inv (dfs C P pkg st) \<and>
         visited (dfs C P pkg st) - set (order (dfs C P pkg st)) = visited st - set (order st)"
    and "dfs_inv (dfs_loop C P l st) \<and>
         visited (dfs_loop C P l st) - set (order (dfs_loop C P l st)) = visited st - set (order st)"
proof -
  obtain new where new: "order (dfs C P pkg st) = order st @ new"
    "visited (dfs C P pkg st) = visited st \<union> set new"
    "distinct new" "set new \<inter> visited st = {}"
    using dfs_shape(1)[of C P pkg st] by blast
  show "dfs_inv (dfs C P pkg st) \<and>
         visited (dfs C P pkg st) - set (order (dfs C P pkg st)) = visited st - set (order st)"
    using new assms unfolding dfs_inv_def by auto
next
  obtain new where new: "order (dfs_loop C P l st) = order st @ new"
    "visited (dfs_loop C P l st) = visited st \<union> set new"
    "distinct new" "set new \<inter> visited st = {}"
    using dfs_shape(2)[of C P l st] by blast
  show "dfs_inv (dfs_loop C P l st) \<and>
         visited (dfs_loop C P l st) - set (order (dfs_loop C P l st)) = visited st - set (order st)"
    using new assms unfolding dfs_inv_def by auto
qed

lemma dfs_order_ok:
  "pkg \<in> C \<longrightarrow> dfs_inv st \<longrightarrow> order_ok P C (order st) \<longrightarrow>
     (\<forall>g \<in> visited st - set (order st). (g, pkg) \<in> (dep_edges P C)\<^sup>+) \<longrightarrow>
     order_ok P C (order (dfs C P pkg st))"
  "dfs_inv st \<longrightarrow> order_ok P C (order st) \<longrightarrow>
     (\<forall>g \<in> visited st - set (order st). \<forall>d \<in> set l. d \<in> C \<longrightarrow> (g, d) \<in> (dep_edges P C)\<^sup>+) \<longrightarrow>
     order_ok P C (order (dfs_loop C P l st))"
proof (induction C P pkg st and C P l st rule: dfs_induct)
  case (dfs C P pkg st)
  show ?case
  proof (intro impI)
    assume pkg: "pkg \<in> C" and inv: "dfs_inv st" and ok: "order_ok P C (order st)"
      and gray: "\<forall>g \<in> visited st - set (order st). (g, pkg) \<in> (dep_edges P C)\<^sup>+"
    show "order_ok P C (order (dfs C P pkg st))"
    proof (cases "pkg \<in> visited st")
      case True
      then show ?thesis using ok by (simp add: dfs_unfold[of C P pkg st])
    next
      case False
      let ?st1 = "st\<lparr>visited := insert pkg (visited st)\<rparr>"
      let ?l = "first_alt_deps P pkg"
      let ?st2 = "dfs_loop C P ?l ?st1"
      have r: "dfs C P pkg st = ?st2\<lparr>order := order ?st2 @ [pkg]\<rparr>"
        using False by (simp add: dfs_unfold[of C P pkg st] Let_def)
      have inv1: "dfs_inv ?st1" using inv by (auto simp: dfs_inv_def)
      have ok1: "order_ok P C (order ?st1)" using ok by simp
      have edge: "\<And>d. d \<in> set ?l \<Longrightarrow> d \<in> C \<Longrightarrow> (pkg, d) \<in> dep_edges P C"
        using pkg by (simp add: dep_edges_def)
      have gray1: "\<forall>g \<in> visited ?st1 - set (order ?st1). \<forall>d \<in> set ?l. d \<in> C \<longrightarrow>
                     (g, d) \<in> (dep_edges P C)\<^sup>+"
      proof (intro ballI impI)
        fix g d
        assume g: "g \<in> visited ?st1 - set (order ?st1)" and d: "d \<in> set ?l" "d \<in> C"
        show "(g, d) \<in> (dep_edges P C)\<^sup>+"
        proof (cases "g = pkg")
          case True
          then show ?thesis using edge[OF d] by blast
        next
          case False
          then have "g \<in> visited st - set (order st)" using g by simp
          then have "(g, pkg) \<in> (dep_edges P C)\<^sup>+" using gray by blast
          then show ?thesis using edge[OF d] by (rule trancl.trancl_into_trancl)
        qed
      qed
      have ok2: "order_ok P C (order ?st2)"
        using dfs.IH[OF False] inv1 ok1 gray1 by blast
      obtain new where new: "order ?st2 = order ?st1 @ new"
        "visited ?st2 = visited ?st1 \<union> set new"
        "set new \<inter> visited ?st1 = {}"
        "set ?l \<inter> C \<subseteq> visited ?st1 \<union> set new"
        using dfs_shape(2)[of C P ?l ?st1] by blast
      have notin: "pkg \<notin> set (order ?st2)"
        using new False inv by (auto simp: dfs_inv_def)
      have deps: "\<forall>d \<in> set ?l. d \<in> C \<longrightarrow>
                    d \<in> set (order ?st2) \<or> (d, pkg) \<in> (dep_edges P C)\<^sup>+"
      proof (intro ballI impI)
        fix d assume d: "d \<in> set ?l" "d \<in> C"
        then have dv: "d \<in> insert pkg (visited st) \<union> set new" using new(4) by auto
        show "d \<in> set (order ?st2) \<or> (d, pkg) \<in> (dep_edges P C)\<^sup>+"
        proof (cases "d \<in> set (order ?st2)")
          case True
          then show ?thesis by simp
        next
          case False
          then have "d = pkg \<or> d \<in> visited st - set (order st)"
            using dv new(1) by auto
          then show ?thesis
          proof
            assume "d = pkg"
            then show ?thesis using edge[OF d] by blast
          next
            assume "d \<in> visited st - set (order st)"
            then show ?thesis using gray by blast
          qed
        qed
      qed
      show ?thesis unfolding r using order_ok_append[OF ok2 notin deps] by simp
    qed
  qed
next
  case (Nil C P st)
  then show ?case by simp
next
  case (Cons C P d ds st)
  show ?case
  proof (intro impI)
    assume inv: "dfs_inv st" and ok: "order_ok P C (order st)"
      and gray: "\<forall>g \<in> visited st - set (order st). \<forall>e \<in> set (d # ds). e \<in> C \<longrightarrow>
                   (g, e) \<in> (dep_edges P C)\<^sup>+"
    let ?st1 = "if d \<in> C then dfs C P d st else st"
    have s1: "dfs_inv ?st1 \<and> visited ?st1 - set (order ?st1) = visited st - set (order st)"
      using dfs_inv_gray(1)[OF inv, of C P d] inv by simp
    have ok1: "order_ok P C (order ?st1)"
    proof (cases "d \<in> C")
      case True
      have "\<forall>g \<in> visited st - set (order st). (g, d) \<in> (dep_edges P C)\<^sup>+"
        using gray True by simp
      then show ?thesis using Cons.IH(1)[OF True] True inv ok by simp
    next
      case False
      then show ?thesis using ok by simp
    qed
    have gray1: "\<forall>g \<in> visited ?st1 - set (order ?st1). \<forall>e \<in> set ds. e \<in> C \<longrightarrow>
                   (g, e) \<in> (dep_edges P C)\<^sup>+"
      using gray s1 by simp
    have "order_ok P C (order (dfs_loop C P ds ?st1))"
      using Cons.IH(2) s1 ok1 gray1 by blast
    then show "order_ok P C (order (dfs_loop C P (d # ds) st))" by simp
  qed
qed

lemma compute_install_order_loop_ok:
  assumes "set (order st) = visited st" "distinct (order st)" "visited st \<subseteq> C" "set l \<subseteq> C"
    "order_ok P C (order st)"
  shows "order_ok P C (order (compute_install_order_loop C P l st))"
  using assms
proof (induction l arbitrary: st)
  case Nil
  then show ?case by simp
next
  case (Cons pkg rest)
  let ?st1 = "if pkg \<notin> visited st then dfs C P pkg st else st"
  have pkgC: "pkg \<in> C" using Cons.prems by simp
  have s1: "set (order ?st1) = visited ?st1 \<and> distinct (order ?st1) \<and> visited ?st1 \<subseteq> C"
    using dfs_top_inv[of st C pkg P] Cons.prems pkgC by simp
  have inv: "dfs_inv st" using Cons.prems by (simp add: dfs_inv_def)
  have "order_ok P C (order (dfs C P pkg st))"
    using dfs_order_ok(1)[of pkg C st P] pkgC inv Cons.prems by simp
  then have ok1: "order_ok P C (order ?st1)" using Cons.prems by simp
  have "order_ok P C (order (compute_install_order_loop C P rest ?st1))"
    using Cons.IH[of ?st1] s1 ok1 Cons.prems by simp
  then show ?case by simp
qed

subsection \<open>Evaluation of the scenarios\<close>

lemma order_B:
  "compute_install_order [''A'', ''B''] scenario_B_index = [''B'', ''A'']"
  "compute_install_order [''B'', ''A''] scenario_B_index = [''A'', ''B'']"
  by (simp_all add: compute_install_order_def dfs_unfold deps_B Let_def)

lemma order_A:
  "compute_install_order [''A'', ''B'', ''C''] scenario_A_index = [''C'', ''B'', ''A'']"
  by (simp add: compute_install_order_def dfs_unfold deps_A Let_def)

lemma no_edge_from_C: "(''C'', x) \<notin> (dep_edges scenario_A_index S)\<^sup>+"
proof
  assume "(''C'', x) \<in> (dep_edges scenario_A_index S)\<^sup>+"
  then obtain z where "(''C'', z) \<in> dep_edges scenario_A_index S"
    by (meson tranclD)
  then show False by (simp add: dep_edges_def deps_A)
qed

section \<open>Claims about compute_install_order\<close>

text \<open>
  C6.  The sequence that \<open>compute_install_order(closure, index)\<close> returns is a
  permutation of the closure: its members are exactly the members of the closure, and
  none occurs twice.  This holds for every order in which the closure is iterated.
\<close>

theorem install_order_permutation:
  "set (compute_install_order ws P) = set ws \<and> distinct (compute_install_order ws P)"
  by (rule compute_install_order_perm)

text \<open>
  C1, as stated: for all \<open>p\<close> and \<open>d\<close> in the closure with \<open>d\<close> a first-alternative
  dependency of \<open>p\<close>, the returned sequence has \<open>d\<close> strictly before \<open>p\<close>.  This
  fails on a closure with a dependency cycle, where no sequence can satisfy it.  On
  the index \<open>{A: Depends="B", B: Depends="A"}\<close> the closure of \<open>A\<close> is \<open>{A, B}\<close>.
  Iterated as \<open>A, B\<close> the result is \<open>[B, A]\<close>, where \<open>A\<close>, a dependency of \<open>B\<close>, comes
  after \<open>B\<close>; iterated as \<open>B, A\<close> the result is \<open>[A, B]\<close>, where \<open>B\<close>, a dependency of
  \<open>A\<close>, comes after \<open>A\<close>.
\<close>

theorem install_order_cycle_counterexample:
  "resolve ''A'' scenario_B_index = set [''A'', ''B'']
   \<and> ''B'' \<in> set [''A'', ''B''] \<and> ''A'' \<in> set [''A'', ''B'']
   \<and> ''A'' \<in> set (first_alt_deps scenario_B_index ''B'')
   \<and> ''B'' \<in> set (first_alt_deps scenario_B_index ''A'')
   \<and> \<not> position ''A'' (compute_install_order [''A'', ''B''] scenario_B_index)
         < position ''B'' (compute_install_order [''A'', ''B''] scenario_B_index)
   \<and> \<not> position ''B'' (compute_install_order [''B'', ''A''] scenario_B_index)
         < position ''A'' (compute_install_order [''B'', ''A''] scenario_B_index)"
  using scen_B[of "[]"] by (simp add: resolve_def order_B deps_B)

text \<open>
  C1, amended: for all \<open>p\<close> and \<open>d\<close> in the closure with \<open>d\<close> a first-alternative
  dependency of \<open>p\<close>, the returned sequence has \<open>d\<close> strictly before \<open>p\<close>, unless
  \<open>p\<close> can be reached from \<open>d\<close> along first-alternative dependencies between members of
  the closure (the edge from \<open>p\<close> to \<open>d\<close> lies on a cycle).  By C6 each of the two has
  one position in the sequence.
\<close>

theorem install_order_valid:
  assumes "p \<in> set ws" and "d \<in> set ws" and "d \<in> set (first_alt_deps P p)"
    and "(d, p) \<notin> (dep_edges P (set ws))\<^sup>+"
  shows "position d (compute_install_order ws P) < position p (compute_install_order ws P)"
proof -
  let ?st0 = "\<lparr>order = [], visited = {}\<rparr>"
  have "order_ok P (set ws) (order (compute_install_order_loop (set ws) P ws ?st0))"
    by (rule compute_install_order_loop_ok) (simp_all add: order_ok_def)
  then have ok: "order_ok P (set ws) (compute_install_order ws P)"
    by (simp add: compute_install_order_def)
  have "p \<in> set (compute_install_order ws P)"
    using assms(1) compute_install_order_perm[of ws P] by simp
  then show ?thesis using ok assms unfolding order_ok_def by blast
qed

theorem install_order_valid_witness:
  "''B'' \<in> set [''A'', ''B'', ''C''] \<and> ''C'' \<in> set [''A'', ''B'', ''C'']
   \<and> ''C'' \<in> set (first_alt_deps scenario_A_index ''B'')
   \<and> (''C'', ''B'') \<notin> (dep_edges scenario_A_index (set [''A'', ''B'', ''C'']))\<^sup>+
   \<and> position ''C'' (compute_install_order [''A'', ''B'', ''C''] scenario_A_index)
       < position ''B'' (compute_install_order [''A'', ''B'', ''C''] scenario_A_index)"
proof -
  have h1: "''B'' \<in> set [''A'', ''B'', ''C'']" by simp
  have h2: "''C'' \<in> set [''A'', ''B'', ''C'']" by simp
  have h3: "''C'' \<in> set (first_alt_deps scenario_A_index ''B'')" by (simp add: deps_A)
  have h4: "(''C'', ''B'') \<notin> (dep_edges scenario_A_index (set [''A'', ''B'', ''C'']))\<^sup>+"
    by (rule no_edge_from_C)
  show ?thesis using install_order_valid[OF h1 h2 h3 h4] h1 h2 h3 h4 by blast
qed

section \<open>The first alternative of a group\<close>

text \<open>
  A non-blank character in a string stops \<open>strip\<close> from both sides; the first piece
  of a split is the text before the first separator.
\<close>

lemma split_on_no_sep: "c \<notin> set s \<Longrightarrow> split_on c s = [s]"
  by (induction s) auto

lemma hd_split_on: "hd (split_on c s) = takeWhile (\<lambda>x. x \<noteq> c) s"
  by (induction s) (auto split: list.splits simp: split_on_not_Nil)

lemma lstrip_anchor: "\<not> is_space x \<Longrightarrow> lstrip (a @ x # b) = lstrip a @ x # b"
  by (simp add: lstrip_def dropWhile_append3)

lemma rstrip_anchor: "\<not> is_space x \<Longrightarrow> rstrip (a @ x # b) = a @ x # rstrip b"
  by (simp add: rstrip_def dropWhile_append3)

lemma strip_anchor: "\<not> is_space x \<Longrightarrow> strip (a @ x # b) = lstrip a @ x # rstrip b"
  by (simp add: strip_def lstrip_anchor rstrip_anchor)

lemma strip_lstrip: "strip (lstrip a) = strip a"
  by (simp add: strip_def lstrip_def)

lemma set_lstrip: "set (lstrip a) \<subseteq> set a"
  by (simp add: lstrip_def set_dropWhileD subsetI)

lemma parse_dependencies_loop_acc:
  "parse_dependencies_loop gs acc = acc @ parse_dependencies_loop gs []"
proof (induction gs arbitrary: acc)
  case Nil
  then show ?case by simp
next
  case (Cons g gs)
  show ?case
  proof (cases "strip g = []")
    case True
    then show ?thesis using Cons[of acc] by simp
  next
    case False
    let ?pkg = "hd (split_on (CHR '' '') (strip (hd (split_on (CHR ''|'') (strip g)))))"
    have "parse_dependencies_loop (g # gs) acc = parse_dependencies_loop gs (acc @ [?pkg])"
      using False by (simp add: Let_def)
    also have "\<dots> = (acc @ [?pkg]) @ parse_dependencies_loop gs []"
      by (rule Cons)
    also have "\<dots> = acc @ parse_dependencies_loop gs [?pkg]"
      using Cons[of "[?pkg]"] by simp
    also have "\<dots> = acc @ parse_dependencies_loop (g # gs) []"
      using False by (simp add: Let_def)
    finally show ?thesis .
  qed
qed

lemma parse_dependencies_loop_append:
  "parse_dependencies_loop (gs1 @ gs2) acc
     = parse_dependencies_loop gs2 (parse_dependencies_loop gs1 acc)"
  by (induction gs1 arbitrary: acc) (simp_all add: Let_def)

text \<open>Of a group \<open>c|alts\<close> the loop keeps the name of \<open>c\<close>, whatever \<open>alts\<close> is.\<close>

lemma parse_dependencies_loop_group:
  assumes "CHR ''|'' \<notin> set c"
  shows "parse_dependencies_loop [c @ ''|'' @ alts] [] = [candidate_name c]"
proof -
  have nosp: "\<not> is_space (CHR ''|'')" by (simp add: is_space_def)
  have st: "strip (c @ CHR ''|'' # alts) = lstrip c @ CHR ''|'' # rstrip alts"
    by (rule strip_anchor[OF nosp])
  have "CHR ''|'' \<notin> set (lstrip c)" using assms set_lstrip by blast
  then have h: "hd (split_on (CHR ''|'') (lstrip c @ CHR ''|'' # rstrip alts)) = lstrip c"
    by (auto simp add: hd_split_on takeWhile_tail)
  show ?thesis
    by (simp add: st h strip_lstrip candidate_name_def Let_def)
qed

lemma parse_dependencies_groups:
  assumes "split_on (CHR '','') field = gs1 @ [c @ ''|'' @ alts] @ gs2"
    and "CHR ''|'' \<notin> set c"
  shows "parse_dependencies field
           = parse_dependencies_loop gs1 [] @ [candidate_name c] @ parse_dependencies_loop gs2 []"
proof -
  have "parse_dependencies field
          = parse_dependencies_loop gs2
              (parse_dependencies_loop [c @ ''|'' @ alts] (parse_dependencies_loop gs1 []))"
    unfolding parse_dependencies_def assms(1)
    by (simp only: parse_dependencies_loop_append)
  also have "\<dots> = (parse_dependencies_loop gs1 [] @ [candidate_name c])
                      @ parse_dependencies_loop gs2 []"
    using parse_dependencies_loop_acc[of "[c @ ''|'' @ alts]" "parse_dependencies_loop gs1 []"]
      parse_dependencies_loop_group[OF assms(2), of alts]
      parse_dependencies_loop_acc[of gs2 "parse_dependencies_loop gs1 [] @ [candidate_name c]"]
    by simp
  finally show ?thesis by simp
qed

lemma resolve_sound:
  "resolved (resolve_dependencies n P st) \<subseteq> resolved st \<union> {n} \<union> (\<Union>q. set (first_alt_deps P q))"
  "resolved (resolve_dependencies_loop l P st) \<subseteq> resolved st \<union> set l \<union> (\<Union>q. set (first_alt_deps P q))"
proof (induction n P st and l P st rule: resolve_induct)
  case (resolve n P st)
  show ?case
  proof (cases "n \<notin> resolved st \<and> n \<notin> seen st \<and> n \<in> fmdom' P")
    case True
    let ?st1 = "st\<lparr>seen := insert n (seen st)\<rparr>"
    let ?st2 = "resolve_dependencies_loop (first_alt_deps P n) P ?st1"
    have r: "resolve_dependencies n P st = ?st2\<lparr>resolved := insert n (resolved ?st2)\<rparr>"
      using True by (simp add: resolve_dependencies_unfold[of n P st] Let_def)
    have ih: "resolved ?st2 \<subseteq> resolved ?st1 \<union> set (first_alt_deps P n) \<union> (\<Union>q. set (first_alt_deps P q))"
      using resolve True by blast
    show ?thesis unfolding r using ih by auto
  next
    case False
    then show ?thesis by (auto simp: resolve_dependencies_unfold[of n P st])
  qed
next
  case (Nil P st)
  then show ?case by simp
next
  case (Cons d ds P st)
  then show ?case by auto
qed

subsection \<open>Evaluation of the index with a missing first candidate\<close>

lemma deps_alt:
  "first_alt_deps alternative_index q = (if q = ''A'' then [''C''] else [])"
  by (simp add: first_alt_deps_def alternative_index_def string_eval)

lemma dom_alt: "fmdom' alternative_index = {''A'', ''D''}"
  by (auto simp add: alternative_index_def fmdom'_alt_def fmdom_of_list)

lemma deps_A_all:
  "first_alt_deps scenario_A_index q =
     (if q = ''A'' then [''B'', ''C''] else if q = ''B'' then [''C''] else [])"
  by (simp add: first_alt_deps_def scenario_A_index_def string_eval)

lemma scen_alt: "resolve ''A'' alternative_index = {''A''}"
  by (simp add: resolve_def call_resolve_dependencies_def fresh_state_def
        resolve_dependencies_unfold deps_alt dom_alt Let_def insert_commute warning_not_found_def)

text \<open>
  C5.  A package \<open>p\<close> whose dependency field has, among its comma-separated groups, an
  alternative group \<open>c|alts\<close>: \<open>gs1\<close> are the groups before it and \<open>gs2\<close> the groups
  after it (either may be empty), \<open>c\<close> is the text of the first candidate (a name,
  possibly with blanks around it and a version constraint after it) and \<open>alts\<close> the later
  alternatives.  What the group adds to the dependency edges of \<open>p\<close> is the name of its
  first candidate and nothing else, wherever the group stands in the field.  A name \<open>D\<close>
  other than that, such as the name of a later alternative, does not enter the closure
  through the group: if \<open>D\<close> is not the root, not the name kept of another group of the
  field and not a first-alternative dependency of another package, it is not in the
  closure, whether or not \<open>D\<close> is in the index and whether or not the first candidate
  is.  On the index of scenario A, with the field \<open>B, C|D\<close>, the closure of \<open>A\<close> does
  not contain \<open>D\<close>; on the index \<open>{A: Depends="C|D", D: {}}\<close>, where \<open>C\<close> is absent
  and \<open>D\<close> present, it does not either.
\<close>

theorem first_alternative_only:
  assumes "fmlookup P p = Some info"
    and "fmlookup info ''Depends'' = Some field"
    and "split_on (CHR '','') field = gs1 @ [c @ ''|'' @ alts] @ gs2"
    and "CHR ''|'' \<notin> set c"
    and "D \<noteq> candidate_name c" and "D \<noteq> root"
    and "D \<notin> set (parse_dependencies_loop (gs1 @ gs2) [])"
    and "\<forall>q. q \<noteq> p \<longrightarrow> D \<notin> set (first_alt_deps P q)"
  shows "first_alt_deps P p
           = parse_dependencies_loop gs1 [] @ [candidate_name c] @ parse_dependencies_loop gs2 []
         \<and> D \<notin> resolve root P"
proof -
  have deps: "first_alt_deps P p
      = parse_dependencies_loop gs1 [] @ [candidate_name c] @ parse_dependencies_loop gs2 []"
    using assms(1,2) parse_dependencies_groups[OF assms(3,4)]
    by (simp add: first_alt_deps_def)
  have others: "parse_dependencies_loop (gs1 @ gs2) []
      = parse_dependencies_loop gs1 [] @ parse_dependencies_loop gs2 []"
    using parse_dependencies_loop_append[of gs1 gs2 "[]"]
      parse_dependencies_loop_acc[of gs2 "parse_dependencies_loop gs1 []"] by simp
  have "D \<notin> set (parse_dependencies_loop gs1 [] @ parse_dependencies_loop gs2 [])"
    using assms(7) by (simp add: others)
  then have dp: "D \<notin> set (first_alt_deps P p)"
    using assms(5) by (simp add: deps)
  have "D \<notin> set (first_alt_deps P q)" for q
    using assms(8) dp by (cases "q = p") simp_all
  moreover have "resolve root P \<subseteq> {root} \<union> (\<Union>q. set (first_alt_deps P q))"
    using resolve_sound(1)[of root P "fresh_state []"]
    by (simp add: resolve_def call_resolve_dependencies_def fresh_state_def)
  ultimately have "D \<notin> resolve root P" using assms(6) by blast
  then show ?thesis using deps by simp
qed

theorem first_alternative_only_witness:
  "fmlookup scenario_A_index ''A'' = Some (fmap_of_list [(''Depends'', ''B, C|D'')])
   \<and> fmlookup (fmap_of_list [(''Depends'', ''B, C|D'')]) ''Depends'' = Some ''B, C|D''
   \<and> split_on (CHR '','') ''B, C|D'' = [''B''] @ ['' C'' @ ''|'' @ ''D''] @ []
   \<and> CHR ''|'' \<notin> set '' C''
   \<and> ''D'' \<noteq> candidate_name '' C'' \<and> ''D'' \<noteq> ''A''
   \<and> ''D'' \<notin> set (parse_dependencies_loop ([''B''] @ []) [])
   \<and> \<not> (\<exists>q. q \<noteq> ''A'' \<and> ''D'' \<in> set (first_alt_deps scenario_A_index q))
   \<and> ''D'' \<in> fmdom' scenario_A_index
   \<and> first_alt_deps scenario_A_index ''A''
        = parse_dependencies_loop [''B''] [] @ [candidate_name '' C''] @ parse_dependencies_loop [] []
   \<and> first_alt_deps scenario_A_index ''A'' = [''B'', ''C'']
   \<and> ''D'' \<notin> resolve ''A'' scenario_A_index
   \<and> fmlookup alternative_index ''A'' = Some (fmap_of_list [(''Depends'', ''C|D'')])
   \<and> fmlookup (fmap_of_list [(''Depends'', ''C|D'')]) ''Depends'' = Some ''C|D''
   \<and> split_on (CHR '','') ''C|D'' = [] @ [''C'' @ ''|'' @ ''D''] @ []
   \<and> CHR ''|'' \<notin> set ''C''
   \<and> ''D'' \<noteq> candidate_name ''C''
   \<and> ''D'' \<notin> set (parse_dependencies_loop ([] @ []) [])
   \<and> \<not> (\<exists>q. q \<noteq> ''A'' \<and> ''D'' \<in> set (first_alt_deps alternative_index q))
   \<and> ''C'' \<notin> fmdom' alternative_index \<and> ''D'' \<in> fmdom' alternative_index
   \<and> first_alt_deps alternative_index ''A'' = [''C'']
   \<and> ''D'' \<notin> resolve ''A'' alternative_index"
proof -
  have a1: "fmlookup scenario_A_index ''A'' = Some (fmap_of_list [(''Depends'', ''B, C|D'')])"
    by (simp add: scenario_A_index_def)
  have a2: "fmlookup (fmap_of_list [(''Depends'', ''B, C|D'')]) ''Depends'' = Some ''B, C|D''"
    by simp
  have a3: "split_on (CHR '','') ''B, C|D'' = [''B''] @ ['' C'' @ ''|'' @ ''D''] @ []"
    by simp
  have a4: "CHR ''|'' \<notin> set '' C''" by simp
  have a5: "''D'' \<noteq> candidate_name '' C''" by (simp add: candidate_name_def string_eval)
  have a6: "''D'' \<noteq> ''A''" by simp
  have a7: "''D'' \<notin> set (parse_dependencies_loop ([''B''] @ []) [])"
    by (simp add: string_eval)
  have a8: "\<forall>q. q \<noteq> ''A'' \<longrightarrow> ''D'' \<notin> set (first_alt_deps scenario_A_index q)"
    by (simp add: deps_A_all)
  have a9: "''D'' \<in> fmdom' scenario_A_index" by (simp add: dom_A)
  have ra: "first_alt_deps scenario_A_index ''A''
        = parse_dependencies_loop [''B''] [] @ [candidate_name '' C''] @ parse_dependencies_loop [] []
      \<and> ''D'' \<notin> resolve ''A'' scenario_A_index"
    by (rule first_alternative_only[OF a1 a2 a3 a4 a5 a6 a7 a8])
  have b1: "fmlookup alternative_index ''A'' = Some (fmap_of_list [(''Depends'', ''C|D'')])"
    by (simp add: alternative_index_def)
  have b2: "fmlookup (fmap_of_list [(''Depends'', ''C|D'')]) ''Depends'' = Some ''C|D''"
    by simp
  have b3: "split_on (CHR '','') ''C|D'' = [] @ [''C'' @ ''|'' @ ''D''] @ []"
    by simp
  have b4: "CHR ''|'' \<notin> set ''C''" by simp
  have b5: "''D'' \<noteq> candidate_name ''C''" by (simp add: candidate_name_def string_eval)
  have b7: "''D'' \<notin> set (parse_dependencies_loop ([] @ []) [])" by simp
  have b8: "\<forall>q. q \<noteq> ''A'' \<longrightarrow> ''D'' \<notin> set (first_alt_deps alternative_index q)"
    by (simp add: deps_alt)
  have b9: "''C'' \<notin> fmdom' alternative_index \<and> ''D'' \<in> fmdom' alternative_index"
    by (simp add: dom_alt)
  have rb: "first_alt_deps alternative_index ''A''
        = parse_dependencies_loop [] [] @ [candidate_name ''C''] @ parse_dependencies_loop [] []
      \<and> ''D'' \<notin> resolve ''A'' alternative_index"
    by (rule first_alternative_only[OF b1 b2 b3 b4 b5 a6 b7 b8])
  have va: "first_alt_deps scenario_A_index ''A'' = [''B'', ''C'']" by (simp add: deps_A)
  have vb: "first_alt_deps alternative_index ''A'' = [''C'']" by (simp add: deps_alt)
  have a8': "\<not> (\<exists>q. q \<noteq> ''A'' \<and> ''D'' \<in> set (first_alt_deps scenario_A_index q))"
    using a8 by blast
  have b8': "\<not> (\<exists>q. q \<noteq> ''A'' \<and> ''D'' \<in> set (first_alt_deps alternative_index q))"
    using b8 by blast
  note ra1 = ra[THEN conjunct1] and ra2 = ra[THEN conjunct2]
    and rb2 = rb[THEN conjunct2]
    and b9a = b9[THEN conjunct1] and b9b = b9[THEN conjunct2]
  show ?thesis
    by (intro conjI) (fact a1 a2 a3 a4 a5 a6 a7 a8' a9 ra1 va ra2 b1 b2 b3 b4 b5 b7 b8' b9a b9b vb rb2)+
qed

section \<open>Facts about the line loop\<close>

lemma parse_lines_append:
  "parse_lines (xs @ ys) st =
     (case parse_lines xs st of Inl e \<Rightarrow> Inl e | Inr st' \<Rightarrow> parse_lines ys st')"
  by (induction xs arbitrary: st) (auto split: sum.splits)

lemma split_on_max1_found:
  "c \<in> set s \<Longrightarrow>
     split_on_max1 c s = [takeWhile (\<lambda>x. x \<noteq> c) s, tl (dropWhile (\<lambda>x. x \<noteq> c) s)]"
  by (auto simp: split_on_max1_def split: list.splits)

lemma parse_line_key_line:
  "is_key_line line \<Longrightarrow>
     parse_line line st =
       Inr (st\<lparr>key := Some (key_of_line line),
              pkg_info := fmupd (key_of_line line)
                 (strip (tl (dropWhile (\<lambda>x. x \<noteq> CHR '':'') line))) (pkg_info st)\<rparr>)"
  by (simp add: parse_line_def is_key_line_def split_on_max1_found key_of_line_def Let_def)

lemma most_recent_key_snoc:
  "most_recent_key (ls @ [l]) = (if is_key_line l then Some (key_of_line l) else most_recent_key ls)"
  by (simp add: most_recent_key_def)

text \<open>The loop never raises; \<open>key\<close> is the key of the last key line, and has a value.\<close>

lemma parse_entry_lines_inv:
  "\<exists>st. parse_entry_lines ls = Inr st \<and> key st = most_recent_key ls \<and>
        (\<forall>k. key st = Some k \<longrightarrow> fmlookup (pkg_info st) k \<noteq> None)"
proof (induction ls rule: rev_induct)
  case Nil
  then show ?case by (simp add: parse_entry_lines_def most_recent_key_def)
next
  case (snoc l ls)
  then obtain st where st: "parse_entry_lines ls = Inr st" "key st = most_recent_key ls"
    "\<forall>k. key st = Some k \<longrightarrow> fmlookup (pkg_info st) k \<noteq> None" by blast
  have step: "parse_entry_lines (ls @ [l]) = parse_line l st"
    using st(1) by (simp add: parse_entry_lines_def parse_lines_append split: sum.splits)
  show ?case
  proof (cases "is_key_line l")
    case True
    then show ?thesis
      unfolding step by (simp add: parse_line_key_line most_recent_key_snoc)
  next
    case False
    have mk: "most_recent_key (ls @ [l]) = most_recent_key ls"
      using False by (simp add: most_recent_key_snoc)
    show ?thesis
    proof (cases "startswith_space l")
      case True
      show ?thesis
      proof (cases "key st")
        case None
        then show ?thesis unfolding step mk using True st by (simp add: parse_line_def)
      next
        case (Some k)
        then obtain v where v: "fmlookup (pkg_info st) k = Some v" using st(3) by auto
        have pl: "parse_line l st =
            (if k = [] then Inr st
             else Inr (st\<lparr>pkg_info := fmupd k (v @ '' '' @ strip l) (pkg_info st)\<rparr>))"
          using True Some v by (simp add: parse_line_def)
        show ?thesis
        proof (cases "k = []")
          case True
          then show ?thesis unfolding step mk pl using st by simp
        next
          case False
          then show ?thesis unfolding step mk pl using st Some by auto
        qed
      qed
    next
      case nospace: False
      then have "CHR '':'' \<notin> set l" using False by (simp add: is_key_line_def)
      then show ?thesis unfolding step mk using nospace st by (simp add: parse_line_def)
    qed
  qed
qed

lemmas line_eval = parse_entry_lines_def parse_line_def startswith_space_def split_on_max1_def
  entry_field_def most_recent_key_def is_key_line_def key_of_line_def
  strip_def lstrip_def rstrip_def is_space_def Let_def

lemma field_plain: "parse_entry_lines [''Description: a''] =
    Inr \<lparr>pkg_info = fmupd ''Description'' ''a'' fmempty, key = Some ''Description''\<rparr>"
  by (simp add: line_eval)

section \<open>Claims about the line loop\<close>

text \<open>
  C7, as stated: a line that begins with whitespace is a continuation line and appends a
  space and its trimmed content to the value of the most recently seen key.  The loop
  tests \<open>line.startswith(" ")\<close>, so a line that begins with another whitespace
  character is not a continuation line: after \<open>Description: a\<close>, a line made of a
  tab and \<open>b\<close> leaves the value \<open>a\<close>.  And \<open>if key\<close> is false for the empty string:
  after the key line \<open>:x\<close>, whose key is empty, the continuation line \<open> y\<close> leaves
  the value \<open>x\<close>.
\<close>

theorem continuation_lines_counterexample:
  "is_space (CHR 0x09)
   \<and> most_recent_key [''Description: a''] = Some ''Description''
   \<and> entry_field [''Description: a''] ''Description'' = Some ''a''
   \<and> entry_field [''Description: a'', [CHR 0x09, CHR ''b'']] ''Description'' = Some ''a''
   \<and> entry_field [''Description: a'', [CHR 0x09, CHR ''b'']] ''Description'' \<noteq> Some ''a b''
   \<and> most_recent_key ['':x''] = Some ''''
   \<and> entry_field ['':x''] '''' = Some ''x''
   \<and> entry_field ['':x'', '' y''] '''' = Some ''x''
   \<and> entry_field ['':x'', '' y''] '''' \<noteq> Some ''x y''"
  by (simp add: line_eval)

text \<open>
  C7, amended: within a record, the continuation lines are the lines that begin with a
  space character.  The loop raises no error.  A continuation line after a most recently
  seen key that is not empty appends a single space and its trimmed content to the value
  of that key, and changes no other field.  A continuation line with no preceding key,
  or after an empty key, is ignored, and so is a line that contains no colon and does
  not begin with a space.
\<close>

theorem continuation_lines:
  "(\<exists>st. parse_entry_lines ls = Inr st)
   \<and> (startswith_space l \<longrightarrow> most_recent_key ls = Some k \<longrightarrow> k \<noteq> [] \<longrightarrow>
        (\<exists>v. entry_field ls k = Some v
              \<and> entry_field (ls @ [l]) k = Some (v @ '' '' @ strip l))
        \<and> (\<forall>k'. k' \<noteq> k \<longrightarrow> entry_field (ls @ [l]) k' = entry_field ls k'))
   \<and> (startswith_space l \<longrightarrow> (most_recent_key ls = None \<or> most_recent_key ls = Some []) \<longrightarrow>
        parse_entry_lines (ls @ [l]) = parse_entry_lines ls)
   \<and> (\<not> startswith_space l \<longrightarrow> CHR '':'' \<notin> set l \<longrightarrow>
        parse_entry_lines (ls @ [l]) = parse_entry_lines ls)"
proof -
  obtain st where st: "parse_entry_lines ls = Inr st" "key st = most_recent_key ls"
    "\<forall>k. key st = Some k \<longrightarrow> fmlookup (pkg_info st) k \<noteq> None"
    using parse_entry_lines_inv[of ls] by blast
  have step: "parse_entry_lines (ls @ [l]) = parse_line l st"
    using st(1) by (simp add: parse_entry_lines_def parse_lines_append split: sum.splits)
  have a: "\<exists>st. parse_entry_lines ls = Inr st" using st(1) by blast
  have b: "(\<exists>v. entry_field ls k = Some v
              \<and> entry_field (ls @ [l]) k = Some (v @ '' '' @ strip l))
        \<and> (\<forall>k'. k' \<noteq> k \<longrightarrow> entry_field (ls @ [l]) k' = entry_field ls k')"
    if "startswith_space l" "most_recent_key ls = Some k" "k \<noteq> []"
  proof -
    have ks: "key st = Some k" using that st(2) by simp
    then obtain v where v: "fmlookup (pkg_info st) k = Some v" using st(3) by auto
    have "parse_line l st = Inr (st\<lparr>pkg_info := fmupd k (v @ '' '' @ strip l) (pkg_info st)\<rparr>)"
      using that ks v by (simp add: parse_line_def)
    then show ?thesis using v st(1) by (simp add: entry_field_def step)
  qed
  have c: "parse_entry_lines (ls @ [l]) = parse_entry_lines ls"
    if "startswith_space l" "most_recent_key ls = None \<or> most_recent_key ls = Some []"
    using that st(1,2) unfolding step by (auto simp: parse_line_def)
  have d: "parse_entry_lines (ls @ [l]) = parse_entry_lines ls"
    if "\<not> startswith_space l" "CHR '':'' \<notin> set l"
    using that st(1) unfolding step by (simp add: parse_line_def)
  show ?thesis using a b c d by blast
qed

theorem continuation_lines_witness:
  "startswith_space '' b'' \<and> most_recent_key [''Description: a''] = Some ''Description''
   \<and> ''Description'' \<noteq> []
   \<and> entry_field [''Description: a''] ''Description'' = Some ''a''
   \<and> entry_field ([''Description: a''] @ ['' b'']) ''Description'' = Some (''a'' @ '' '' @ strip '' b'')
   \<and> startswith_space '' b'' \<and> most_recent_key [] = None
   \<and> parse_entry_lines ([] @ ['' b'']) = parse_entry_lines []
   \<and> \<not> startswith_space ''b'' \<and> CHR '':'' \<notin> set ''b''
   \<and> parse_entry_lines ([''Description: a''] @ [''b'']) = parse_entry_lines [''Description: a'']"
proof -
  have h1: "startswith_space '' b''" by (simp add: startswith_space_def)
  have h2: "most_recent_key [''Description: a''] = Some ''Description''" by (simp add: line_eval)
  have h3: "''Description'' \<noteq> []" by simp
  have h4: "most_recent_key [] = None" by (simp add: most_recent_key_def)
  have h5: "\<not> startswith_space ''b''" "CHR '':'' \<notin> set ''b''" by (simp_all add: startswith_space_def)
  have v: "entry_field [''Description: a''] ''Description'' = Some ''a''" by (simp add: line_eval)
  have "entry_field ([''Description: a''] @ ['' b'']) ''Description'' = Some (''a'' @ '' '' @ strip '' b'')"
    using continuation_lines[of "[''Description: a'']" "'' b''" "''Description''"] h1 h2 h3 v
    by auto
  moreover have "parse_entry_lines ([] @ ['' b'']) = parse_entry_lines []"
    using continuation_lines[of "[]" "'' b''"] h1 h4 by blast
  moreover have "parse_entry_lines ([''Description: a''] @ [''b'']) = parse_entry_lines [''Description: a'']"
    using continuation_lines[of "[''Description: a'']" "''b''"] h5 by blast
  ultimately show ?thesis using h1 h2 h3 h4 h5 v by blast
qed

end
